theory Spec2Isabelle
  imports Main "HOL-Library.AList"
begin

section \<open>Data model of \<open>execute_commands.py\<close>\<close>

text \<open>
  Python strings are sequences of Unicode code points, and the markers of
  \<open>execute_command\<close> contain code points beyond ASCII, so a Python \<open>str\<close> is
  a list of code points here. \<open>ascii\<close> embeds an ASCII literal.
\<close>

type_synonym ustr = "nat list"

definition ascii :: "string \<Rightarrow> ustr" where
  "ascii s = map of_char s"

text \<open>
  The dataset is a JSON array of conversations. A turn is a JSON object whose
  fields are looked up by name (\<open>.get\<close>): an association list in insertion
  order, as a Python \<open>dict\<close> keeps it, with text as field values. A
  conversation is a JSON object with the field \<open>conversations\<close>, a list of turns,
  or without it (\<open>None\<close>), and with other fields, text as well, which the
  program never reads.
\<close>

type_synonym turn = "(ustr \<times> ustr) list"

record conversation =
  conversations :: "turn list option"
  other_fields :: "(ustr \<times> ustr) list"

text \<open>\<open>d.get(k)\<close> is \<open>map_of d k\<close>; \<open>d.get(k, default)\<close>:\<close>

definition get_default :: "turn \<Rightarrow> ustr \<Rightarrow> ustr \<Rightarrow> ustr" where
  "get_default d k dflt = (case map_of d k of None \<Rightarrow> dflt | Some v \<Rightarrow> v)"

text \<open>
  \<open>d[k] = v\<close> overwrites the value of a key where it stands and appends a new key
  at the end: \<open>AList.update\<close>.
\<close>

definition set_item :: "turn \<Rightarrow> ustr \<Rightarrow> ustr \<Rightarrow> turn" where
  "set_item d k v = AList.update k v d"

section \<open>\<open>execute_command\<close>\<close>

text \<open>
  What \<open>subprocess.run(command, shell=True, capture_output=True, text=True,
  timeout=timeout)\<close> can do: return a completed process with its decoded output
  streams and exit status, raise \<open>TimeoutExpired\<close>, or raise another
  \<open>Exception\<close> \<open>e\<close>, of which the code reads \<open>str(e)\<close>.
\<close>

datatype proc_result =
  Completed (stdout: ustr) (stderr: ustr) (returncode: int)
  | TimeoutExpired
  | Raised (message: ustr)

text \<open>
  The host system is a state \<open>'w\<close> that a command reads and changes: a shell
  maps the command, the timeout and the state before to the result and the
  state after.
\<close>

type_synonym 'w shell = "ustr \<Rightarrow> int \<Rightarrow> 'w \<Rightarrow> proc_result \<times> 'w"

text \<open>
  \<open>str.strip()\<close> without argument removes the leading and trailing characters
  for which \<open>str.isspace\<close> holds; these are the code points below.
\<close>

definition isspace :: "nat \<Rightarrow> bool" where
  "isspace c \<longleftrightarrow>
     (0x09 \<le> c \<and> c \<le> 0x0D) \<or> (0x1C \<le> c \<and> c \<le> 0x20) \<or> c = 0x85 \<or> c = 0xA0 \<or>
     c = 0x1680 \<or> (0x2000 \<le> c \<and> c \<le> 0x200A) \<or> c = 0x2028 \<or> c = 0x2029 \<or>
     c = 0x202F \<or> c = 0x205F \<or> c = 0x3000"

definition strip :: "ustr \<Rightarrow> ustr" where
  "strip s = rev (dropWhile isspace (rev (dropWhile isspace s)))"

text \<open>\<open>str(n)\<close> of an integer: the decimal digits, with a minus sign.\<close>

fun str_nat :: "nat \<Rightarrow> ustr" where
  "str_nat n = (if n < 10 then [48 + n] else str_nat (n div 10) @ [48 + n mod 10])"

declare str_nat.simps [simp del]

definition str_int :: "int \<Rightarrow> ustr" where
  "str_int i = (if i < 0 then 45 # str_nat (nat (- i)) else str_nat (nat i))"

text \<open>The literal parts of the two marker texts.\<close>

definition timeout_marker_prefix :: ustr where
  "timeout_marker_prefix = [0x5B, 0x547D, 0x4EE4, 0x6267, 0x884C, 0x8D85, 0x65F6, 0x3A, 0x20]"

definition timeout_marker_suffix :: ustr where
  "timeout_marker_suffix = [0x79D2, 0x5D]"

definition error_marker_prefix :: ustr where
  "error_marker_prefix = [0x5B, 0x547D, 0x4EE4, 0x6267, 0x884C, 0x9519, 0x8BEF, 0x3A, 0x20]"

definition error_marker_suffix :: ustr where
  "error_marker_suffix = [0x5D]"

text \<open>Lines 48 to 55: the text made of the two captured streams.\<close>

definition combine_output :: "ustr \<Rightarrow> ustr \<Rightarrow> ustr" where
  "combine_output out err =
     (let output = out;
          output = (if err \<noteq> [] then (if output \<noteq> [] then output @ [0x0A] @ err else err)
                    else output)
      in if output \<noteq> [] then strip output else [])"

definition execute_command :: "'w shell \<Rightarrow> ustr \<Rightarrow> int \<Rightarrow> 'w \<Rightarrow> ustr \<times> 'w" where
  "execute_command sh command timeout w =
     (case sh command timeout w of (result, w') \<Rightarrow>
        (case result of
           Completed out err rc \<Rightarrow> combine_output out err
         | TimeoutExpired \<Rightarrow> timeout_marker_prefix @ str_int timeout @ timeout_marker_suffix
         | Raised msg \<Rightarrow> error_marker_prefix @ msg @ error_marker_suffix,
         w'))"

section \<open>\<open>process_conversations\<close>\<close>

text \<open>
  The lines printed from the loop on, without their timestamps and file names:
  the header of a conversation (its 1-based position and the range bound), the
  warning for a malformed pair (with the index \<open>i\<close> of its first turn), the
  command and the output preview of a round, and the two messages announcing a
  save. The banner printed before the loop and the last line are left out.
\<close>

datatype event =
  ConvHeader int int
  | FormatWarning nat
  | RoundCommand nat ustr
  | RoundPreview nat ustr
  | AutoSave
  | FinalSave

text \<open>Lines 123 and 124: the preview of an output.\<close>

definition preview :: "ustr \<Rightarrow> ustr" where
  "preview output =
     (let p = (if length output > 200 then take 200 output @ ascii ''...'' else output)
      in concat (map (\<lambda>c. if c = 0x0A then [0x5C, 0x6E] else [c]) p))"

text \<open>
  Lines 99 to 125, the loop \<open>for i in range(0, len(conversations_list), 2)\<close>,
  entered at index \<open>i\<close>. It carries the list of turns (the entries are changed
  in place), the counter \<open>round_num\<close>, the state of the host and the lines
  printed so far.
\<close>

function pair_loop ::
  "'w shell \<Rightarrow> int \<Rightarrow> nat \<Rightarrow> turn list \<Rightarrow> nat \<Rightarrow> 'w \<Rightarrow> event list
     \<Rightarrow> turn list \<times> nat \<times> 'w \<times> event list" where
  "pair_loop sh timeout i cl round_num w out =
     (if \<not> i < length cl then (cl, round_num, w, out)
      else if i + 1 \<ge> length cl then (cl, round_num, w, out)
      else
        let human_entry = cl ! i; gpt_entry = cl ! (i + 1) in
        if map_of human_entry (ascii ''from'') \<noteq> Some (ascii ''human'')
           \<or> map_of gpt_entry (ascii ''from'') \<noteq> Some (ascii ''gpt'')
        then pair_loop sh timeout (i + 2) cl round_num w (out @ [FormatWarning i])
        else
          let round_num' = round_num + 1;
              command = get_default human_entry (ascii ''value'') []
          in case execute_command sh command timeout w of (output, w') \<Rightarrow>
               pair_loop sh timeout (i + 2)
                 (cl[i + 1 := set_item gpt_entry (ascii ''value'') output]) round_num' w'
                 (out @ [RoundCommand round_num' command, RoundPreview round_num' (preview output)]))"
  by pat_completeness auto
termination
  by (relation "measure (\<lambda>(sh, timeout, i, cl, round_num, w, out). length cl - i)") auto

declare pair_loop.simps [simp del]

text \<open>
  The state of a run: the dataset in memory, the successive contents written to
  the output path (oldest first; the file holds the last one), the state of the
  host, and the lines printed.
\<close>

record 'w run_state =
  data :: "conversation list"
  saved :: "conversation list list"
  world :: 'w
  console :: "event list"

datatype error = IndexError | UnicodeEncodeError

text \<open>
  \<open>data[conv_idx]\<close>: a negative index counts from the end, and an index out of
  range raises \<open>IndexError\<close>. The result is the position read.
\<close>

definition list_position :: "nat \<Rightarrow> int \<Rightarrow> error + nat" where
  "list_position n i =
     (let j = (if i < 0 then int n + i else i)
      in if 0 \<le> j \<and> j < int n then Inr (nat j) else Inl IndexError)"

text \<open>
  \<open>json.dump(data, f, ensure_ascii=False, indent=2)\<close> into a file opened for
  writing in UTF-8: a lone surrogate code point in a string of the dataset
  cannot be encoded, and the write raises \<open>UnicodeEncodeError\<close>, leaving a
  truncated file. Otherwise the file holds the dataset. The file system itself
  accepts the write.
\<close>

definition encodable :: "ustr \<Rightarrow> bool" where
  "encodable s = list_all (\<lambda>c. \<not> (0xD800 \<le> c \<and> c \<le> 0xDFFF)) s"

definition writable_object :: "(ustr \<times> ustr) list \<Rightarrow> bool" where
  "writable_object d = list_all (\<lambda>kv. encodable (fst kv) \<and> encodable (snd kv)) d"

definition writable :: "conversation list \<Rightarrow> bool" where
  "writable d =
     list_all
       (\<lambda>c. writable_object (other_fields c)
            \<and> (case conversations c of None \<Rightarrow> True | Some cl \<Rightarrow> list_all writable_object cl))
       d"

definition save_dataset :: "'w run_state \<Rightarrow> error + 'w run_state" where
  "save_dataset st =
     (if writable (data st) then Inr (st\<lparr>saved := saved st @ [data st]\<rparr>)
      else Inl UnicodeEncodeError)"

text \<open>Lines 92 to 125: one conversation of the loop over the conversations.\<close>

definition conv_body ::
  "'w shell \<Rightarrow> int \<Rightarrow> int \<Rightarrow> int \<Rightarrow> 'w run_state \<Rightarrow> error + 'w run_state" where
  "conv_body sh timeout end_index conv_idx st =
     (case list_position (length (data st)) conv_idx of
        Inl e \<Rightarrow> Inl e
      | Inr p \<Rightarrow>
          let conversation = data st ! p;
              conversations_list =
                (case conversations conversation of None \<Rightarrow> [] | Some cl \<Rightarrow> cl);
              out = console st @ [ConvHeader (conv_idx + 1) end_index]
          in case pair_loop sh timeout 0 conversations_list 0 (world st) out of
               (cl', round_num, w', out') \<Rightarrow>
                 let conversation' =
                       (case conversations conversation of
                          None \<Rightarrow> conversation
                        | Some _ \<Rightarrow> conversation\<lparr>conversations := Some cl'\<rparr>)
                 in Inr (st\<lparr>data := (data st)[p := conversation'], world := w',
                            console := out'\<rparr>))"

text \<open>Lines 92 to 131: the body of the loop, with the save after every tenth index.\<close>

definition conv_step ::
  "'w shell \<Rightarrow> int \<Rightarrow> int \<Rightarrow> int \<Rightarrow> 'w run_state \<Rightarrow> error + 'w run_state" where
  "conv_step sh timeout end_index conv_idx st =
     (case conv_body sh timeout end_index conv_idx st of
        Inl e \<Rightarrow> Inl e
      | Inr st' \<Rightarrow>
          if (conv_idx + 1) mod 10 = 0
          then save_dataset (st'\<lparr>console := console st' @ [AutoSave]\<rparr>)
          else Inr st')"

text \<open>\<open>range(start, end)\<close> and the loop over it, which an error ends.\<close>

definition py_range :: "int \<Rightarrow> int \<Rightarrow> int list" where
  "py_range a b = [a..b - 1]"

fun conv_loop ::
  "'w shell \<Rightarrow> int \<Rightarrow> int \<Rightarrow> int list \<Rightarrow> 'w run_state \<Rightarrow> error + 'w run_state" where
  "conv_loop sh timeout end_index [] st = Inr st"
| "conv_loop sh timeout end_index (conv_idx # rest) st =
     (case conv_step sh timeout end_index conv_idx st of
        Inl e \<Rightarrow> Inl e
      | Inr st' \<Rightarrow> conv_loop sh timeout end_index rest st')"

text \<open>Lines 84 and 85: the end of the range.\<close>

definition effective_end :: "nat \<Rightarrow> int option \<Rightarrow> int" where
  "effective_end total_conversations end_index =
     (case end_index of
        None \<Rightarrow> int total_conversations
      | Some e \<Rightarrow> if e > int total_conversations then int total_conversations else e)"

text \<open>
  \<open>process_conversations\<close> on the dataset \<open>d\<close> read from the input file, in the
  host state \<open>w\<close>, to the final save.
\<close>

definition process_conversations ::
  "'w shell \<Rightarrow> int \<Rightarrow> int \<Rightarrow> int option \<Rightarrow> conversation list \<Rightarrow> 'w
     \<Rightarrow> error + 'w run_state" where
  "process_conversations sh timeout start_index end_index d w =
     (let end_index' = effective_end (length d) end_index
      in case conv_loop sh timeout end_index' (py_range start_index end_index')
                \<lparr>data = d, saved = [], world = w, console = []\<rparr> of
           Inl e \<Rightarrow> Inl e
         | Inr st \<Rightarrow> save_dataset (st\<lparr>console := console st @ [FinalSave]\<rparr>))"

section \<open>Definitions used in the statements\<close>

text \<open>
  The combination of the two streams in the words of the specification: the
  error stream after the output stream, with a newline between them when the
  output stream is not empty, or alone when it is.
\<close>

definition spec_combined :: "ustr \<Rightarrow> ustr \<Rightarrow> ustr" where
  "spec_combined out err = (if err = [] then out else if out = [] then err else out @ [0x0A] @ err)"

text \<open>The condition of line 107 under which a pair is processed.\<close>

definition well_paired :: "turn \<Rightarrow> turn \<Rightarrow> bool" where
  "well_paired h g \<longleftrightarrow> map_of h (ascii ''from'') = Some (ascii ''human'') \<and> map_of g (ascii ''from'') = Some (ascii ''gpt'')"

text \<open>The number that a text of decimal digits denotes.\<close>

definition digits_value :: "ustr \<Rightarrow> nat" where
  "digits_value s = foldl (\<lambda>a c. 10 * a + (c - 48)) 0 s"

text \<open>
  The walk over the turns two by two, in the words of the specification: a
  structural recursion that takes the pairs \<open>(0,1), (2,3), \<dots>\<close> and stops when
  fewer than two turns remain. It carries what the loop carries; \<open>i\<close> is the
  index of the first turn of the pair at hand.
\<close>

fun spec_walk_pairs ::
  "'w shell \<Rightarrow> int \<Rightarrow> nat \<Rightarrow> turn list \<Rightarrow> nat \<Rightarrow> 'w \<Rightarrow> event list
     \<Rightarrow> turn list \<times> nat \<times> 'w \<times> event list" where
  "spec_walk_pairs sh timeout i (h # g # rest) rn w out =
     (if well_paired h g
      then case execute_command sh (get_default h (ascii ''value'') []) timeout w of
             (output, w') \<Rightarrow>
               (case spec_walk_pairs sh timeout (i + 2) rest (rn + 1) w'
                       (out @ [RoundCommand (rn + 1) (get_default h (ascii ''value'') []),
                               RoundPreview (rn + 1) (preview output)]) of
                  (rest', r) \<Rightarrow> (h # set_item g (ascii ''value'') output # rest', r))
      else case spec_walk_pairs sh timeout (i + 2) rest rn w (out @ [FormatWarning i]) of
             (rest', r) \<Rightarrow> (h # g # rest', r))"
| "spec_walk_pairs sh timeout i cl rn w out = (cl, rn, w, out)"

text \<open>The same walk, for the turns and the host state alone.\<close>

fun spec_turns :: "'w shell \<Rightarrow> int \<Rightarrow> turn list \<Rightarrow> 'w \<Rightarrow> turn list \<times> 'w" where
  "spec_turns sh timeout (h # g # rest) w =
     (if well_paired h g
      then case execute_command sh (get_default h (ascii ''value'') []) timeout w of
             (output, w') \<Rightarrow>
               (case spec_turns sh timeout rest w' of
                  (rest', w'') \<Rightarrow> (h # set_item g (ascii ''value'') output # rest', w''))
      else case spec_turns sh timeout rest w of
             (rest', w'') \<Rightarrow> (h # g # rest', w''))"
| "spec_turns sh timeout cl w = (cl, w)"

text \<open>
  What a walk may change in a list of turns: the second turn of a well-formed
  pair, and of it only the field \<open>value\<close>.
\<close>

fun turns_frame :: "turn list \<Rightarrow> turn list \<Rightarrow> bool" where
  "turns_frame (h # g # rest) (h' # g' # rest') \<longleftrightarrow>
     h' = h
     \<and> (g' = g \<or> (well_paired h g
                   \<and> g' = set_item g (ascii ''value'') (get_default g' (ascii ''value'') [])))
     \<and> turns_frame rest rest'"
| "turns_frame [x] [x'] \<longleftrightarrow> x' = x"
| "turns_frame [] [] \<longleftrightarrow> True"
| "turns_frame _ _ \<longleftrightarrow> False"

text \<open>
  The effect of processing one conversation, and a list of conversations in
  order, on the dataset and the host state.
\<close>

definition spec_update_conv ::
  "'w shell \<Rightarrow> int \<Rightarrow> conversation \<Rightarrow> 'w \<Rightarrow> conversation \<times> 'w" where
  "spec_update_conv sh timeout c w =
     (case conversations c of
        None \<Rightarrow> (c, w)
      | Some cl \<Rightarrow>
          (case spec_turns sh timeout cl w of (cl', w') \<Rightarrow> (c\<lparr>conversations := Some cl'\<rparr>, w')))"

fun spec_update_all ::
  "'w shell \<Rightarrow> int \<Rightarrow> conversation list \<Rightarrow> 'w \<Rightarrow> conversation list \<times> 'w" where
  "spec_update_all sh timeout [] w = ([], w)"
| "spec_update_all sh timeout (c # cs) w =
     (case spec_update_conv sh timeout c w of
        (c', w') \<Rightarrow>
          (case spec_update_all sh timeout cs w' of (cs', w'') \<Rightarrow> (c' # cs', w'')))"

text \<open>What a run may change in a conversation.\<close>

definition conv_frame :: "conversation \<Rightarrow> conversation \<Rightarrow> bool" where
  "conv_frame c c' \<longleftrightarrow>
     other_fields c' = other_fields c
     \<and> (case conversations c of
          None \<Rightarrow> conversations c' = None
        | Some cl \<Rightarrow> (case conversations c' of None \<Rightarrow> False | Some cl' \<Rightarrow> turns_frame cl cl'))"

section \<open>Example inputs\<close>

text \<open>
  A host on which \<open>echo hi\<close> prints a line, \<open>sleep 5\<close> exceeds the timeout,
  \<open>ls /nope\<close> fails with a message on the error stream and exit status 2, and
  launching any other command raises. Commands do not change its state.
\<close>

definition example_shell :: "nat shell" where
  "example_shell c t w =
     (if c = ascii ''echo hi'' then Completed (ascii ''hi'' @ [0x0A]) [] 0
      else if c = ascii ''sleep 5'' then TimeoutExpired
      else if c = ascii ''ls /nope'' then Completed [] (ascii ''ls: cannot access'' @ [0x0A]) 2
      else Raised (ascii ''embedded null byte''), w)"

definition example_turn :: "string \<Rightarrow> string \<Rightarrow> turn" where
  "example_turn f v = [(ascii ''from'', ascii f), (ascii ''value'', ascii v)]"

definition example_turns :: "turn list" where
  "example_turns =
     [example_turn ''human'' ''sleep 5'', example_turn ''gpt'' ''old'',
      example_turn ''gpt'' ''x'', example_turn ''human'' ''echo hi'',
      example_turn ''gpt'' ''y'']"

definition example_three :: "conversation list" where
  "example_three =
     [\<lparr>conversations = Some [example_turn ''human'' ''echo hi'', example_turn ''gpt'' ''''],
       other_fields = [(ascii ''id'', ascii ''a'')]\<rparr>,
      \<lparr>conversations = Some example_turns, other_fields = [(ascii ''id'', ascii ''b'')]\<rparr>,
      \<lparr>conversations = Some [example_turn ''human'' ''ls /nope'', example_turn ''gpt'' ''''],
       other_fields = [(ascii ''id'', ascii ''c'')]\<rparr>]"

definition example_three_wrapped :: "conversation list" where
  "example_three_wrapped =
     [\<lparr>conversations = Some [example_turn ''human'' ''echo hi'', example_turn ''gpt'' ''hi''],
       other_fields = [(ascii ''id'', ascii ''a'')]\<rparr>,
      \<lparr>conversations = Some example_turns, other_fields = [(ascii ''id'', ascii ''b'')]\<rparr>,
      \<lparr>conversations =
         Some [example_turn ''human'' ''ls /nope'', example_turn ''gpt'' ''ls: cannot access''],
       other_fields = [(ascii ''id'', ascii ''c'')]\<rparr>]"

definition example_none :: conversation where
  "example_none = \<lparr>conversations = None, other_fields = [(ascii ''id'', ascii ''n'')]\<rparr>"

definition example_ten :: "conversation list" where
  "example_ten =
     [example_none, example_none, example_none, example_none, example_none, example_none,
      example_none, example_none, example_none,
      \<lparr>conversations = Some [example_turn ''human'' ''echo hi'', example_turn ''gpt'' ''''],
        other_fields = [(ascii ''id'', ascii ''t'')]\<rparr>,
      \<lparr>conversations = Some [example_turn ''human'' ''echo hi'', example_turn ''gpt'' ''''],
        other_fields = [(ascii ''id'', ascii ''u'')]\<rparr>]"


definition example_run :: "nat run_state" where
  "example_run =
     \<lparr>data =
        [example_three ! 0,
         \<lparr>conversations =
            Some [example_turn ''human'' ''sleep 5'',
                  [(ascii ''from'', ascii ''gpt''),
                   (ascii ''value'', timeout_marker_prefix @ ascii ''30'' @ timeout_marker_suffix)],
                  example_turn ''gpt'' ''x'', example_turn ''human'' ''echo hi'',
                  example_turn ''gpt'' ''y''],
           other_fields = [(ascii ''id'', ascii ''b'')]\<rparr>,
         example_three ! 2],
      saved =
        [[example_three ! 0,
          \<lparr>conversations =
             Some [example_turn ''human'' ''sleep 5'',
                   [(ascii ''from'', ascii ''gpt''),
                    (ascii ''value'', timeout_marker_prefix @ ascii ''30'' @ timeout_marker_suffix)],
                   example_turn ''gpt'' ''x'', example_turn ''human'' ''echo hi'',
                   example_turn ''gpt'' ''y''],
            other_fields = [(ascii ''id'', ascii ''b'')]\<rparr>,
          example_three ! 2]],
      world = 0,
      console =
        [ConvHeader 2 2, RoundCommand 1 (ascii ''sleep 5''),
         RoundPreview 1 (timeout_marker_prefix @ ascii ''30'' @ timeout_marker_suffix),
         FormatWarning 2, FinalSave]\<rparr>"

text \<open>
  A dataset that holds a lone surrogate, as \<open>json.load\<close> reads it from an
  escape of the code point D83D, and the state of the run on \<open>example_ten\<close> after its tenth
  conversation.
\<close>

definition example_surrogate :: "conversation list" where
  "example_surrogate = [\<lparr>conversations = None, other_fields = [(ascii ''note'', [0xD83D])]\<rparr>]"

definition example_ten_surrogate :: "conversation list" where
  "example_ten_surrogate =
     [example_none, example_none, example_none, example_none, example_none, example_none,
         example_none, example_none, example_none]
     @ example_surrogate"

definition example_ten_checkpoint :: "nat run_state" where
  "example_ten_checkpoint =
     \<lparr>data =
        [example_none, example_none, example_none, example_none, example_none, example_none,
         example_none, example_none, example_none]
        @ [\<lparr>conversations =
              Some [example_turn ''human'' ''echo hi'', example_turn ''gpt'' ''hi''],
            other_fields = [(ascii ''id'', ascii ''t'')]\<rparr>,
           \<lparr>conversations =
              Some [example_turn ''human'' ''echo hi'', example_turn ''gpt'' ''''],
            other_fields = [(ascii ''id'', ascii ''u'')]\<rparr>],
      saved =
        [[example_none, example_none, example_none, example_none, example_none, example_none,
         example_none, example_none, example_none]
         @ [\<lparr>conversations =
               Some [example_turn ''human'' ''echo hi'', example_turn ''gpt'' ''hi''],
             other_fields = [(ascii ''id'', ascii ''t'')]\<rparr>,
            \<lparr>conversations =
               Some [example_turn ''human'' ''echo hi'', example_turn ''gpt'' ''''],
             other_fields = [(ascii ''id'', ascii ''u'')]\<rparr>]],
      world = 0,
      console =
        [ConvHeader 1 11, ConvHeader 2 11, ConvHeader 3 11, ConvHeader 4 11, ConvHeader 5 11,
         ConvHeader 6 11, ConvHeader 7 11, ConvHeader 8 11, ConvHeader 9 11, ConvHeader 10 11,
         RoundCommand 1 (ascii ''echo hi''), RoundPreview 1 (ascii ''hi''), AutoSave]\<rparr>"

section \<open>\<open>execute_command\<close>: the result text\<close>

lemma strip_Nil: "strip [] = []"
  by (simp add: strip_def)

lemma dropWhile_strip:
  "dropWhile isspace s = strip s @ rev (takeWhile isspace (rev (dropWhile isspace s)))"
proof -
  let ?m = "dropWhile isspace s"
  have "rev (rev ?m) = rev (takeWhile isspace (rev ?m) @ dropWhile isspace (rev ?m))"
    by (simp only: takeWhile_dropWhile_id)
  then show ?thesis
    by (simp only: rev_rev_ident rev_append strip_def)
qed

lemma strip_decomp:
  "\<exists>a b. s = a @ strip s @ b \<and> list_all isspace a \<and> list_all isspace b"
proof -
  let ?a = "takeWhile isspace s"
  let ?b = "rev (takeWhile isspace (rev (dropWhile isspace s)))"
  have "s = ?a @ dropWhile isspace s" by simp
  then have "s = ?a @ strip s @ ?b" using dropWhile_strip [of s] by simp
  moreover have "list_all isspace ?a" by (simp add: list_all_iff) (meson set_takeWhileD)
  moreover have "list_all isspace ?b" by (simp add: list_all_iff) (meson set_takeWhileD)
  ultimately show ?thesis by blast
qed

lemma strip_hd: "strip s \<noteq> [] \<Longrightarrow> \<not> isspace (hd (strip s))"
proof -
  assume ne: "strip s \<noteq> []"
  let ?m = "dropWhile isspace s"
  have mne: "?m \<noteq> []"
  proof
    assume "?m = []"
    then have "strip s = []" unfolding strip_def
      by (simp only: rev.simps dropWhile.simps)
    with ne show False by simp
  qed
  then have h: "\<not> isspace (hd ?m)" by (rule hd_dropWhile)
  have "hd ?m = hd (strip s)" using ne dropWhile_strip [of s] by (metis hd_append2)
  with h show ?thesis by simp
qed

lemma strip_last: "strip s \<noteq> [] \<Longrightarrow> \<not> isspace (last (strip s))"
proof -
  assume ne: "strip s \<noteq> []"
  let ?r = "dropWhile isspace (rev (dropWhile isspace s))"
  have "?r \<noteq> []" using ne by (simp add: strip_def)
  then have "\<not> isspace (hd ?r)" by (rule hd_dropWhile)
  moreover have "last (strip s) = hd ?r" using \<open>?r \<noteq> []\<close> by (simp add: strip_def last_rev)
  ultimately show ?thesis by simp
qed

lemma combine_output_spec: "combine_output out err = strip (spec_combined out err)"
  by (simp add: combine_output_def spec_combined_def strip_Nil)

lemma digits_value_str_nat: "digits_value (str_nat n) = n"
proof (induction n rule: str_nat.induct)
  case (1 n)
  show ?case
  proof (cases "n < 10")
    case True
    then show ?thesis by (subst str_nat.simps) (simp add: digits_value_def)
  next
    case False
    with 1 have "digits_value (str_nat (n div 10)) = n div 10" by simp
    with False show ?thesis
      by (subst str_nat.simps) (simp add: digits_value_def)
  qed
qed

section \<open>The loop over the pairs of a conversation\<close>

lemma pair_loop_valid_step:
  assumes "i + 1 < length cl" and "well_paired (cl ! i) (cl ! (i + 1))"
    and "execute_command sh (get_default (cl ! i) (ascii ''value'') []) timeout w = (output, w')"
  shows "pair_loop sh timeout i cl rn w out =
     pair_loop sh timeout (i + 2) (cl[i + 1 := set_item (cl ! (i + 1)) (ascii ''value'') output])
       (rn + 1) w'
       (out @ [RoundCommand (rn + 1) (get_default (cl ! i) (ascii ''value'') []),
               RoundPreview (rn + 1) (preview output)])"
  using assms by (subst pair_loop.simps) (simp add: well_paired_def Let_def)

lemma pair_loop_skip_step:
  assumes "i + 1 < length cl" and "\<not> well_paired (cl ! i) (cl ! (i + 1))"
  shows "pair_loop sh timeout i cl rn w out =
     pair_loop sh timeout (i + 2) cl rn w (out @ [FormatWarning i])"
  using assms by (subst pair_loop.simps) (auto simp add: well_paired_def Let_def)

lemma pair_loop_end:
  "length cl \<le> i + 1 \<Longrightarrow> pair_loop sh timeout i cl rn w out = (cl, rn, w, out)"
  by (subst pair_loop.simps) auto

lemma pair_loop_walk:
  "i \<le> length cl \<Longrightarrow>
   pair_loop sh timeout i cl rn w out =
     (case spec_walk_pairs sh timeout i (drop i cl) rn w out of
        (r, x) \<Rightarrow> (take i cl @ r, x))"
proof (induction sh timeout i cl rn w out rule: pair_loop.induct)
  case (1 sh timeout i cl rn w out)
  show ?case
  proof (cases "i + 1 < length cl")
    case False
    then have "drop i cl = [] \<or> (\<exists>x. drop i cl = [x])"
      by (cases "drop i cl"; cases "tl (drop i cl)") (auto simp: drop_Suc dest!: arg_cong[where f=length])
    with False show ?thesis
      by (auto simp: pair_loop_end) (metis append_take_drop_id)+
  next
    case True
    then have d: "drop i cl = cl ! i # cl ! (i + 1) # drop (i + 2) cl"
      by (metis Cons_nth_drop_Suc Suc_eq_plus1 add_2_eq_Suc' add_lessD1)
    have t: "\<And>x. take (i + 2) (cl[i + 1 := x]) = take i cl @ [cl ! i, x]"
      using True by (simp add: take_Suc_conv_app_nth)
    show ?thesis
    proof (cases "well_paired (cl ! i) (cl ! (i + 1))")
      case False
      have ih: "pair_loop sh timeout (i + 2) cl rn w (out @ [FormatWarning i]) =
         (case spec_walk_pairs sh timeout (i + 2) (drop (i + 2) cl) rn w (out @ [FormatWarning i]) of
            (r, x) \<Rightarrow> (take (i + 2) cl @ r, x))"
        using True False by (intro "1.IH"(1)) (auto simp: well_paired_def)
      have t0: "take (i + 2) cl = take i cl @ [cl ! i, cl ! (i + 1)]"
        using t [of "cl ! (i + 1)"] by simp
      show ?thesis
        using True False ih d t0
        by (simp add: pair_loop_skip_step split: prod.splits)
    next
      case wp: True
      obtain res w' where ex:
        "execute_command sh (get_default (cl ! i) (ascii ''value'') []) timeout w = (res, w')"
        by (cases "execute_command sh (get_default (cl ! i) (ascii ''value'') []) timeout w")
      let ?cl' = "cl[i + 1 := set_item (cl ! (i + 1)) (ascii ''value'') res]"
      let ?out' = "out @ [RoundCommand (rn + 1) (get_default (cl ! i) (ascii ''value'') []),
               RoundPreview (rn + 1) (preview res)]"
      have ih: "pair_loop sh timeout (i + 2) ?cl' (rn + 1) w' ?out' =
         (case spec_walk_pairs sh timeout (i + 2) (drop (i + 2) ?cl') (rn + 1) w' ?out' of
            (r, x) \<Rightarrow> (take (i + 2) ?cl' @ r, x))"
        using True wp ex
        by (intro "1.IH"(2)[OF _ _ refl refl _ refl refl ex[symmetric]]) (auto simp: well_paired_def)
      show ?thesis
        using True wp ih d t [of "set_item (cl ! (i + 1)) (ascii ''value'') res"] ex
        by (simp add: pair_loop_valid_step[OF True wp ex] split: prod.splits)
    qed
  qed
qed

lemma pair_loop_is_walk: "pair_loop sh timeout 0 cl rn w out = spec_walk_pairs sh timeout 0 cl rn w out"
  using pair_loop_walk [of 0 cl sh timeout rn w out] by (simp split: prod.splits)

lemma walk_turns:
  "spec_walk_pairs sh timeout i cl rn w out = (cl', rn', w', out') \<Longrightarrow>
   spec_turns sh timeout cl w = (cl', w')"
  by (induction sh timeout i cl rn w out arbitrary: cl' rn' w' out' rule: spec_walk_pairs.induct)
     (auto split: if_splits prod.splits)

lemma pair_loop_turns:
  "pair_loop sh timeout 0 cl rn w out = (cl', rn', w', out') \<Longrightarrow>
   spec_turns sh timeout cl w = (cl', w')"
  by (simp add: pair_loop_is_walk walk_turns)

lemma walk_console:
  "spec_walk_pairs sh timeout i cl rn w out = (cl', rn', w', out') \<Longrightarrow>
   \<exists>more. out' = out @ more"
  by (induction sh timeout i cl rn w out arbitrary: cl' rn' w' out' rule: spec_walk_pairs.induct)
     (fastforce split: if_splits prod.splits)+

lemma walk_warning:
  "spec_walk_pairs sh timeout i cl rn w out = (cl', rn', w', out') \<Longrightarrow>
   2 * k + 1 < length cl \<Longrightarrow> \<not> well_paired (cl ! (2 * k)) (cl ! (2 * k + 1)) \<Longrightarrow>
   FormatWarning (i + 2 * k) \<in> set out'"
proof (induction sh timeout i cl rn w out arbitrary: cl' rn' w' out' k rule: spec_walk_pairs.induct)
  case (1 sh timeout i h g rest rn w out)
  show ?case
  proof (cases k)
    case 0
    with 1(3-) show ?thesis
      by (auto split: prod.splits dest!: walk_console)
  next
    case (Suc k')
    with 1(3-) have a: "2 * k' + 1 < length rest"
      and b: "\<not> well_paired (rest ! (2 * k')) (rest ! (2 * k' + 1))" by auto
    have c: "i + 2 * k = i + 2 + 2 * k'" using Suc by simp
    show ?thesis
    proof (cases "well_paired h g")
      case True
      with 1(3) 1(1)[OF True _ _ a b] show ?thesis
        unfolding c by (auto split: prod.splits)
    next
      case False
      with 1(3) 1(2)[OF False _ a b] show ?thesis
        unfolding c by (auto split: prod.splits)
    qed
  qed
qed auto

lemma get_set_item: "get_default (set_item g k v) k d = v"
  by (simp add: get_default_def set_item_def update_conv')

lemma spec_turns_frame: "turns_frame cl (fst (spec_turns sh timeout cl w))"
proof (induction sh timeout cl w rule: spec_turns.induct)
  case (1 sh timeout h g rest w)
  then show ?case
    by (auto split: prod.splits simp: get_set_item)
qed simp_all

lemma turns_frame_length: "turns_frame cl cl' \<Longrightarrow> length cl' = length cl"
  by (induction cl cl' rule: turns_frame.induct) auto

lemma turns_frame_even:
  "turns_frame cl cl' \<Longrightarrow> 2 * k < length cl \<Longrightarrow> cl' ! (2 * k) = cl ! (2 * k)"
proof (induction cl cl' arbitrary: k rule: turns_frame.induct)
  case (1 h g rest h' g' rest')
  then show ?case by (cases k) auto
qed auto

lemma turns_frame_odd:
  "turns_frame cl cl' \<Longrightarrow> 2 * k + 1 < length cl \<Longrightarrow>
   cl' ! (2 * k + 1) = cl ! (2 * k + 1)
   \<or> (well_paired (cl ! (2 * k)) (cl ! (2 * k + 1))
      \<and> cl' ! (2 * k + 1) =
          set_item (cl ! (2 * k + 1)) (ascii ''value'')
            (get_default (cl' ! (2 * k + 1)) (ascii ''value'') []))"
proof (induction cl cl' arbitrary: k rule: turns_frame.induct)
  case (1 h g rest h' g' rest')
  show ?case
  proof (cases k)
    case 0
    with 1(2,3) show ?thesis by auto
  next
    case (Suc k')
    with 1(2,3) 1(1)[of k'] show ?thesis by auto
  qed
qed auto

lemma spec_turns_skip:
  "2 * k + 1 < length cl \<Longrightarrow> \<not> well_paired (cl ! (2 * k)) (cl ! (2 * k + 1)) \<Longrightarrow>
   fst (spec_turns sh timeout cl w) ! (2 * k + 1) = cl ! (2 * k + 1)"
  using turns_frame_odd [OF spec_turns_frame, of k cl sh timeout w] by auto

section \<open>The loop over the conversations\<close>

lemma list_position_nat: "p < n \<Longrightarrow> list_position n (int p) = Inr p"
  by (simp add: list_position_def)

lemma list_position_iff:
  "list_position n i = Inr p \<longleftrightarrow> p < n \<and> (i = int p \<or> i = int p - int n)"
  by (auto simp: list_position_def Let_def split: if_splits)

lemma conv_body_at:
  assumes "list_position (length (data st)) idx = Inr p"
  shows "\<exists>st'. conv_body sh timeout e idx st = Inr st'
     \<and> data st' = (data st)[p := fst (spec_update_conv sh timeout (data st ! p) (world st))]
     \<and> world st' = snd (spec_update_conv sh timeout (data st ! p) (world st))
     \<and> saved st' = saved st"
proof (cases "conversations (data st ! p)")
  case None
  obtain cl' rn' w' out' where pl:
    "pair_loop sh timeout 0 [] 0 (world st) (console st @ [ConvHeader (idx + 1) e]) = (cl', rn', w', out')"
    by (metis prod_cases4)
  then have "w' = world st" by (simp add: pair_loop_end)
  with None pl assms show ?thesis
    by (simp add: conv_body_def spec_update_conv_def Let_def)
next
  case (Some cl)
  obtain cl' rn' w' out' where pl:
    "pair_loop sh timeout 0 cl 0 (world st) (console st @ [ConvHeader (idx + 1) e]) = (cl', rn', w', out')"
    by (metis prod_cases4)
  from pair_loop_turns [OF pl] Some pl assms show ?thesis
    by (simp add: conv_body_def spec_update_conv_def Let_def)
qed

lemma save_dataset_Inr:
  "save_dataset st = Inr st' \<longleftrightarrow> writable (data st) \<and> st' = st\<lparr>saved := saved st @ [data st]\<rparr>"
  by (auto simp: save_dataset_def)

lemma conv_step_Inr:
  assumes "list_position (length (data st)) idx = Inr p"
    and "conv_step sh timeout e idx st = Inr st'"
  shows "data st' = (data st)[p := fst (spec_update_conv sh timeout (data st ! p) (world st))]"
    and "world st' = snd (spec_update_conv sh timeout (data st ! p) (world st))"
    and "saved st' = (if (idx + 1) mod 10 = 0 then saved st @ [data st'] else saved st)"
    and "(idx + 1) mod 10 = 0 \<Longrightarrow> writable (data st')"
proof -
  from conv_body_at [OF assms(1), of sh timeout e] obtain s1 where
    b: "conv_body sh timeout e idx st = Inr s1"
    and d: "data s1 = (data st)[p := fst (spec_update_conv sh timeout (data st ! p) (world st))]"
    and w: "world s1 = snd (spec_update_conv sh timeout (data st ! p) (world st))"
    and s: "saved s1 = saved st"
    by blast
  from assms(2) b have c:
    "(if (idx + 1) mod 10 = 0 then save_dataset (s1\<lparr>console := console s1 @ [AutoSave]\<rparr>)
      else Inr s1) = Inr st'"
    by (simp add: conv_step_def)
  show "data st' = (data st)[p := fst (spec_update_conv sh timeout (data st ! p) (world st))]"
    using c d by (auto simp: save_dataset_Inr split: if_splits)
  show "world st' = snd (spec_update_conv sh timeout (data st ! p) (world st))"
    using c w by (auto simp: save_dataset_Inr split: if_splits)
  show "saved st' = (if (idx + 1) mod 10 = 0 then saved st @ [data st'] else saved st)"
    using c s by (auto simp: save_dataset_Inr split: if_splits)
  show "(idx + 1) mod 10 = 0 \<Longrightarrow> writable (data st')"
    using c by (auto simp: save_dataset_Inr split: if_splits)
qed

lemma conv_step_valid_error:
  assumes "list_position (length (data st)) idx = Inr p"
  shows "conv_step sh timeout e idx st \<noteq> Inl IndexError"
proof -
  from conv_body_at [OF assms, of sh timeout e] obtain s1 where
    "conv_body sh timeout e idx st = Inr s1" by blast
  then show ?thesis
    by (auto simp: conv_step_def save_dataset_def)
qed

lemma conv_step_positions:
  "conv_step sh timeout e idx st = Inr st' \<Longrightarrow> \<exists>p. list_position (length (data st)) idx = Inr p"
  by (cases "list_position (length (data st)) idx")
     (auto simp: conv_step_def conv_body_def)

lemma conv_loop_append:
  "conv_loop sh timeout e (xs @ ys) st =
     (case conv_loop sh timeout e xs st of Inl err \<Rightarrow> Inl err
      | Inr st' \<Rightarrow> conv_loop sh timeout e ys st')"
  by (induction xs arbitrary: st) (auto split: sum.splits)

lemma spec_update_all_length: "length (fst (spec_update_all sh timeout cs w)) = length cs"
  by (induction cs arbitrary: w) (simp_all add: case_prod_beta)

lemma conv_loop_consecutive:
  "a + n \<le> length (data st) \<Longrightarrow>
   conv_loop sh timeout e (map int [a..<a + n]) st = Inr st' \<Longrightarrow>
   data st' = take a (data st)
          @ fst (spec_update_all sh timeout (take n (drop a (data st))) (world st))
          @ drop (a + n) (data st)
     \<and> world st' = snd (spec_update_all sh timeout (take n (drop a (data st))) (world st))"
proof (induction n arbitrary: a st)
  case 0
  then show ?case by simp
next
  case (Suc n)
  then have p: "a < length (data st)" by simp
  have r: "[a..<a + Suc n] = a # [Suc a..<Suc a + n]" by (simp add: upt_conv_Cons)
  from Suc.prems(2) obtain st1 where
    s1: "conv_step sh timeout e (int a) st = Inr st1"
    and l: "conv_loop sh timeout e (map int [Suc a..<Suc a + n]) st1 = Inr st'"
    unfolding r by (auto split: sum.splits)
  note c = conv_step_Inr [OF list_position_nat [OF p] s1]
  note d1 = c(1) and w1 = c(2)
  have len: "Suc a + n \<le> length (data st1)" using Suc.prems d1 by simp
  from Suc.IH [OF len l] have
    d': "data st' = take (Suc a) (data st1)
          @ fst (spec_update_all sh timeout (take n (drop (Suc a) (data st1))) (world st1))
          @ drop (Suc a + n) (data st1)"
    and w': "world st' = snd (spec_update_all sh timeout (take n (drop (Suc a) (data st1))) (world st1))"
    by blast+
  have dr: "drop (Suc a) (data st1) = drop (Suc a) (data st)" by (simp add: d1)
  have dr2: "drop (Suc a + n) (data st1) = drop (Suc a + n) (data st)" by (simp add: d1)
  have tk: "take (Suc a) (data st1) = take a (data st) @ [fst (spec_update_conv sh timeout (data st ! a) (world st))]"
    using p by (simp add: d1 take_Suc_conv_app_nth)
  have da: "take (Suc n) (drop a (data st)) = data st ! a # take n (drop (Suc a) (data st))"
    using p by (simp add: Cons_nth_drop_Suc [symmetric])
  have "data st' = take a (data st)
          @ fst (spec_update_all sh timeout (take (Suc n) (drop a (data st))) (world st))
          @ drop (a + Suc n) (data st)"
    unfolding d' dr dr2 tk da w1 by (simp split: prod.splits)
  moreover have "world st' = snd (spec_update_all sh timeout (take (Suc n) (drop a (data st))) (world st))"
    unfolding w' dr da w1 by (simp split: prod.splits)
  ultimately show ?case by blast
qed

lemma py_range_nat: "py_range (int a) (int b) = map int [a..<b]"
proof (induction b)
  case 0
  then show ?case by (simp add: py_range_def)
next
  case (Suc b)
  show ?case
  proof (cases "a \<le> b")
    case True
    then have "[int a..int (Suc b) - 1] = [int a..int b - 1] @ [int b]"
      using upto_rec2 [of "int a" "int b"] by simp
    with Suc True show ?thesis by (simp add: py_range_def)
  next
    case False
    then show ?thesis by (simp add: py_range_def)
  qed
qed

lemma py_range_empty: "b \<le> a \<Longrightarrow> py_range a b = []"
  by (simp add: py_range_def)

lemma py_range_set: "set (py_range a b) = {i. a \<le> i \<and> i < b}"
  by (auto simp: py_range_def)

section \<open>The frame of a run\<close>

lemma set_item_idem: "set_item (set_item g k v) k v' = set_item g k v'"
  by (simp add: set_item_def)

lemma map_of_set_item: "map_of (set_item g k v) k' = (if k' = k then Some v else map_of g k')"
  by (simp add: set_item_def update_conv')

lemma well_paired_set_item:
  "well_paired h (set_item g (ascii ''value'') v) = well_paired h g"
  by (simp add: well_paired_def map_of_set_item ascii_def)

lemma turns_frame_nth:
  assumes "turns_frame cl cl'" and "i < length cl"
  shows "AList.delete (ascii ''value'') (cl' ! i) = AList.delete (ascii ''value'') (cl ! i)
     \<and> (cl' ! i \<noteq> cl ! i \<longrightarrow> odd i \<and> well_paired (cl ! (i - 1)) (cl ! i))"
proof (cases "even i")
  case True
  then obtain k where "i = 2 * k" by (auto elim: evenE)
  with assms turns_frame_even [of cl cl' k] show ?thesis by simp
next
  case False
  then obtain k where k: "i = 2 * k + 1" by (auto elim: oddE)
  from turns_frame_odd [OF assms(1), of k] assms(2) k
  have "cl' ! i = cl ! i
   \<or> (well_paired (cl ! (i - 1)) (cl ! i)
      \<and> cl' ! i = set_item (cl ! i) (ascii ''value'') (get_default (cl' ! i) (ascii ''value'') []))"
    by simp
  then show ?thesis
  proof
    assume "cl' ! i = cl ! i"
    then show ?thesis by simp
  next
    assume a: "well_paired (cl ! (i - 1)) (cl ! i)
      \<and> cl' ! i = set_item (cl ! i) (ascii ''value'') (get_default (cl' ! i) (ascii ''value'') [])"
    then have "AList.delete (ascii ''value'') (cl' ! i) = AList.delete (ascii ''value'') (cl ! i)"
      by (metis set_item_def delete_update_same)
    with a False show ?thesis by simp
  qed
qed

lemma turns_frame_refl: "turns_frame cl cl"
  by (induction cl rule: induct_list012) auto

lemma turns_frame_trans:
  "turns_frame a b \<Longrightarrow> turns_frame b c \<Longrightarrow> turns_frame a c"
proof (induction a b arbitrary: c rule: turns_frame.induct)
  case (1 h g rest h' g' rest')
  from "1.prems"(2) obtain h'' g'' rest'' where c: "c = h'' # g'' # rest''"
    by (cases c; cases "tl c") auto
  from "1.prems" c have r: "turns_frame rest rest''"
    using "1.IH" by auto
  from "1.prems" c have hh: "h'' = h" by auto
  from "1.prems"(1) have ab: "g' = g \<or> (well_paired h g
      \<and> g' = set_item g (ascii ''value'') (get_default g' (ascii ''value'') []))" by auto
  from "1.prems" c have bc: "g'' = g' \<or> (well_paired h g'
      \<and> g'' = set_item g' (ascii ''value'') (get_default g'' (ascii ''value'') []))" by auto
  have "g'' = g \<or> (well_paired h g
      \<and> g'' = set_item g (ascii ''value'') (get_default g'' (ascii ''value'') []))"
    using ab bc by (metis set_item_idem well_paired_set_item)
  with r hh c show ?case by simp
next
  case (2 x x')
  then show ?case by (cases c; cases "tl c") auto
next
  case 3
  then show ?case by (cases c) auto
qed auto

lemma conv_frame_refl: "conv_frame c c"
  by (simp add: conv_frame_def turns_frame_refl split: option.splits)

lemma conv_frame_trans: "conv_frame a b \<Longrightarrow> conv_frame b c \<Longrightarrow> conv_frame a c"
  by (auto simp: conv_frame_def split: option.splits intro: turns_frame_trans)

lemma spec_update_conv_frame: "conv_frame c (fst (spec_update_conv sh timeout c w))"
  using spec_turns_frame [of _ sh timeout w]
  by (auto simp: conv_frame_def spec_update_conv_def split: option.splits prod.splits)
     (metis fst_conv)

lemma conv_step_frame:
  assumes "conv_step sh timeout e idx st = Inr st'"
  shows "length (data st') = length (data st)"
    and "j < length (data st) \<Longrightarrow> conv_frame (data st ! j) (data st' ! j)"
    and "list_position (length (data st)) idx \<noteq> Inr j \<Longrightarrow> data st' ! j = data st ! j"
proof -
  from conv_step_positions [OF assms] obtain p where
    p: "list_position (length (data st)) idx = Inr p" by blast
  note d = conv_step_Inr(1) [OF p assms]
  show "length (data st') = length (data st)" by (simp add: d)
  show "conv_frame (data st ! j) (data st' ! j)" if "j < length (data st)"
    using that by (cases "j = p") (simp_all add: d spec_update_conv_frame conv_frame_refl)
  show "data st' ! j = data st ! j" if "list_position (length (data st)) idx \<noteq> Inr j"
    using that p by (simp add: d)
qed

lemma conv_loop_frame:
  "conv_loop sh timeout e idxs st = Inr st' \<Longrightarrow>
   length (data st') = length (data st)
   \<and> (\<forall>j<length (data st). conv_frame (data st ! j) (data st' ! j))
   \<and> (\<forall>j. (\<forall>i\<in>set idxs. list_position (length (data st)) i \<noteq> Inr j) \<longrightarrow>
          data st' ! j = data st ! j)"
proof (induction idxs arbitrary: st)
  case Nil
  then show ?case by (simp add: conv_frame_refl)
next
  case (Cons idx idxs)
  from Cons.prems obtain s1 where
    s: "conv_step sh timeout e idx st = Inr s1"
    and l: "conv_loop sh timeout e idxs s1 = Inr st'"
    by (auto split: sum.splits)
  note f = conv_step_frame [OF s]
  note ih = Cons.IH [OF l]
  have a: "length (data st') = length (data st)" using ih f(1) by simp
  have b: "conv_frame (data st ! j) (data st' ! j)" if "j < length (data st)" for j
    using that ih f(1) f(2) [OF that] by (auto intro: conv_frame_trans)
  have c: "data st' ! j = data st ! j"
    if "\<forall>i\<in>set (idx # idxs). list_position (length (data st)) i \<noteq> Inr j" for j
    using that ih f(1) f(3) [of j] by simp
  from a b c show ?case by blast
qed

lemma conv_loop_no_index_error:
  "\<forall>i\<in>set idxs. \<exists>p. list_position (length (data st)) i = Inr p \<Longrightarrow>
   conv_loop sh timeout e idxs st \<noteq> Inl IndexError"
proof (induction idxs arbitrary: st)
  case Nil
  then show ?case by simp
next
  case (Cons idx idxs)
  from Cons.prems obtain p where p: "list_position (length (data st)) idx = Inr p" by auto
  show ?case
  proof (cases "conv_step sh timeout e idx st")
    case (Inl err)
    with conv_step_valid_error [OF p, of sh timeout e] show ?thesis by auto
  next
    case (Inr s1)
    from conv_step_frame(1) [OF Inr] Cons.prems
    have "\<forall>i\<in>set idxs. \<exists>p. list_position (length (data s1)) i = Inr p" by simp
    from Cons.IH [OF this] Inr show ?thesis by simp
  qed
qed

text \<open>The value that a well-formed pair leaves in its second turn.\<close>

lemma spec_turns_value:
  "2 * k + 1 < length cl \<Longrightarrow> well_paired (cl ! (2 * k)) (cl ! (2 * k + 1)) \<Longrightarrow>
   \<exists>w0. fst (spec_turns sh timeout cl w) ! (2 * k + 1) =
     set_item (cl ! (2 * k + 1)) (ascii ''value'')
       (fst (execute_command sh (get_default (cl ! (2 * k)) (ascii ''value'') []) timeout w0))"
proof (induction sh timeout cl w arbitrary: k rule: spec_turns.induct)
  case (1 sh timeout h g rest w)
  show ?case
  proof (cases k)
    case 0
    with 1(3,4) show ?thesis
      by (auto split: prod.splits intro: exI [of _ w])
  next
    case (Suc k')
    with 1(3,4) have a: "2 * k' + 1 < length rest"
      and b: "well_paired (rest ! (2 * k')) (rest ! (2 * k' + 1))" by auto
    show ?thesis
    proof (cases "well_paired h g")
      case True
      obtain res w' where ex:
        "execute_command sh (get_default h (ascii ''value'') []) timeout w = (res, w')"
        by (cases "execute_command sh (get_default h (ascii ''value'') []) timeout w")
      from 1(1) [OF True ex [symmetric] a b] Suc True ex show ?thesis
        by (auto split: prod.splits)
    next
      case False
      from 1(2) [OF False a b] Suc False show ?thesis
        by (auto split: prod.splits)
    qed
  qed
qed auto

section \<open>Hosts whose state the commands do not change\<close>

lemma execute_command_pure:
  assumes "\<forall>c t w. sh c t w = (f c t, w)"
  shows "execute_command sh c t w = (fst (execute_command sh c t w0), w)"
  using assms by (simp add: execute_command_def)

lemma pair_loop_pure:
  assumes pure: "\<forall>c t w. sh c t w = (f c t, w)"
  shows "pair_loop sh timeout i cl rn w out =
     (case pair_loop sh timeout i cl rn w0 out of (cl', rn', w0', out') \<Rightarrow> (cl', rn', w, out'))"
  using pure
proof (induction sh timeout i cl rn w out rule: pair_loop.induct)
  case (1 sh timeout i cl rn w out)
  note p = "1.prems"
  show ?case
  proof (cases "i + 1 < length cl")
    case False
    then show ?thesis by (simp add: pair_loop_end)
  next
    case True
    show ?thesis
    proof (cases "well_paired (cl ! i) (cl ! (i + 1))")
      case False
      have "pair_loop sh timeout (i + 2) cl rn w (out @ [FormatWarning i]) =
        (case pair_loop sh timeout (i + 2) cl rn w0 (out @ [FormatWarning i]) of
           (cl', rn', w0', out') \<Rightarrow> (cl', rn', w, out'))"
        using True False p by (intro "1.IH"(1)) (auto simp: well_paired_def)
      then show ?thesis
        by (simp only: pair_loop_skip_step [OF True False])
    next
      case wp: True
      let ?c = "get_default (cl ! i) (ascii ''value'') []"
      obtain res where ex: "execute_command sh ?c timeout w = (res, w)"
        using execute_command_pure [OF p, of ?c timeout w w] by simp
      have ex0: "execute_command sh ?c timeout w0 = (res, w0)"
        using execute_command_pure [OF p, of ?c timeout w0 w] ex by simp
      let ?cl' = "cl[i + 1 := set_item (cl ! (i + 1)) (ascii ''value'') res]"
      let ?out' = "out @ [RoundCommand (rn + 1) ?c, RoundPreview (rn + 1) (preview res)]"
      have "pair_loop sh timeout (i + 2) ?cl' (rn + 1) w ?out' =
         (case pair_loop sh timeout (i + 2) ?cl' (rn + 1) w0 ?out' of
            (cl', rn', w0', out') \<Rightarrow> (cl', rn', w, out'))"
        using True wp ex p
        by (intro "1.IH"(2)[OF _ _ refl refl _ refl refl ex[symmetric]]) (auto simp: well_paired_def)
      then show ?thesis
        by (simp only: pair_loop_valid_step [OF True wp ex] pair_loop_valid_step [OF True wp ex0])
    qed
  qed
qed

lemma conv_body_pure:
  assumes pure: "\<forall>c t w. sh c t w = (f c t, w)"
  shows "conv_body sh timeout e idx st =
     map_sum id (\<lambda>s. s\<lparr>world := world st\<rparr>) (conv_body sh timeout e idx (st\<lparr>world := w0\<rparr>))"
proof (cases "list_position (length (data st)) idx")
  case (Inl err)
  then show ?thesis by (simp add: conv_body_def)
next
  case (Inr p)
  let ?cl = "case conversations (data st ! p) of None \<Rightarrow> [] | Some cl \<Rightarrow> cl"
  let ?out = "console st @ [ConvHeader (idx + 1) e]"
  obtain cl' rn' w' out' where pl0: "pair_loop sh timeout 0 ?cl 0 w0 ?out = (cl', rn', w', out')"
    by (metis prod_cases4)
  with pair_loop_pure [OF pure, of timeout 0 ?cl 0 "world st" ?out w0]
  have pl: "pair_loop sh timeout 0 ?cl 0 (world st) ?out = (cl', rn', world st, out')"
    by simp
  show ?thesis
    using Inr pl pl0 by (simp add: conv_body_def Let_def)
qed

lemma conv_step_pure:
  assumes pure: "\<forall>c t w. sh c t w = (f c t, w)"
  shows "conv_step sh timeout e idx st =
     map_sum id (\<lambda>s. s\<lparr>world := world st\<rparr>) (conv_step sh timeout e idx (st\<lparr>world := w0\<rparr>))"
proof (cases "conv_body sh timeout e idx (st\<lparr>world := w0\<rparr>)")
  case (Inl err)
  with conv_body_pure [OF pure, of timeout e idx st w0] show ?thesis
    by (simp add: conv_step_def)
next
  case (Inr s0)
  with conv_body_pure [OF pure, of timeout e idx st w0]
  have b: "conv_body sh timeout e idx st = Inr (s0\<lparr>world := world st\<rparr>)" by simp
  have "save_dataset (s0\<lparr>world := world st, console := console s0 @ [AutoSave]\<rparr>) =
      map_sum id (\<lambda>s. s\<lparr>world := world st\<rparr>) (save_dataset (s0\<lparr>console := console s0 @ [AutoSave]\<rparr>))"
    by (simp add: save_dataset_def)
  with b Inr show ?thesis
    by (simp add: conv_step_def)
qed

lemma conv_loop_pure:
  assumes pure: "\<forall>c t w. sh c t w = (f c t, w)"
  shows "conv_loop sh timeout e idxs st =
     map_sum id (\<lambda>s. s\<lparr>world := world st\<rparr>) (conv_loop sh timeout e idxs (st\<lparr>world := w0\<rparr>))"
proof (induction idxs arbitrary: st w0)
  case Nil
  then show ?case by simp
next
  case (Cons idx idxs)
  show ?case
  proof (cases "conv_step sh timeout e idx (st\<lparr>world := w0\<rparr>)")
    case (Inl err)
    with conv_step_pure [OF pure, of timeout e idx st w0] show ?thesis by simp
  next
    case (Inr s0)
    with conv_step_pure [OF pure, of timeout e idx st w0]
    have s: "conv_step sh timeout e idx st = Inr (s0\<lparr>world := world st\<rparr>)" by simp
    have "conv_loop sh timeout e idxs (s0\<lparr>world := world st\<rparr>) =
       map_sum id (\<lambda>s. s\<lparr>world := world st\<rparr>) (conv_loop sh timeout e idxs s0)"
      using Cons.IH [of "s0\<lparr>world := world st\<rparr>" "world s0"] by (simp add: id_def)
    with s Inr show ?thesis by (simp add: id_def)
  qed
qed

lemma process_pure:
  assumes pure: "\<forall>c t w. sh c t w = (f c t, w)"
  shows "process_conversations sh timeout start e d w1 =
     map_sum id (\<lambda>s. s\<lparr>world := w1\<rparr>) (process_conversations sh timeout start e d w2)"
proof -
  let ?e = "effective_end (length d) e"
  let ?st = "\<lambda>w. \<lparr>data = d, saved = [], world = w, console = []\<rparr>"
  have l: "conv_loop sh timeout ?e (py_range start ?e) (?st w1) =
     map_sum id (\<lambda>s. s\<lparr>world := w1\<rparr>) (conv_loop sh timeout ?e (py_range start ?e) (?st w2))"
    using conv_loop_pure [OF pure, of timeout ?e "py_range start ?e" "?st w1" w2] by simp
  show ?thesis
  proof (cases "conv_loop sh timeout ?e (py_range start ?e) (?st w2)")
    case (Inl err)
    with l show ?thesis by (simp add: process_conversations_def Let_def)
  next
    case (Inr b)
    have "save_dataset (b\<lparr>world := w1, console := console b @ [FinalSave]\<rparr>) =
      map_sum id (\<lambda>s. s\<lparr>world := w1\<rparr>) (save_dataset (b\<lparr>console := console b @ [FinalSave]\<rparr>))"
      by (simp add: save_dataset_def)
    with l Inr show ?thesis by (simp add: process_conversations_def Let_def)
  qed
qed

section \<open>The whole run\<close>

lemma process_Inr:
  assumes "process_conversations sh timeout start e d w = Inr st"
  shows "\<exists>s1. conv_loop sh timeout (effective_end (length d) e)
                 (py_range start (effective_end (length d) e))
                 \<lparr>data = d, saved = [], world = w, console = []\<rparr> = Inr s1
     \<and> writable (data s1) \<and> data st = data s1 \<and> world st = world s1
     \<and> saved st = saved s1 @ [data s1]"
  using assms
  by (auto simp: process_conversations_def Let_def save_dataset_Inr split: sum.splits)

lemma spec_update_all_value:
  "j < length cs \<Longrightarrow> conversations (cs ! j) = Some cl \<Longrightarrow>
   2 * i + 1 < length cl \<Longrightarrow> well_paired (cl ! (2 * i)) (cl ! (2 * i + 1)) \<Longrightarrow>
   \<exists>cl' w0. conversations (fst (spec_update_all sh timeout cs w) ! j) = Some cl'
     \<and> cl' ! (2 * i + 1) =
         set_item (cl ! (2 * i + 1)) (ascii ''value'')
           (fst (execute_command sh (get_default (cl ! (2 * i)) (ascii ''value'') []) timeout w0))"
proof (induction cs arbitrary: w j)
  case Nil
  then show ?case by simp
next
  case (Cons c cs)
  show ?case
  proof (cases j)
    case 0
    with Cons.prems have c: "conversations c = Some cl" by simp
    from spec_turns_value [OF Cons.prems(3,4), of sh timeout w] obtain w0 where
      "fst (spec_turns sh timeout cl w) ! (2 * i + 1) =
         set_item (cl ! (2 * i + 1)) (ascii ''value'')
           (fst (execute_command sh (get_default (cl ! (2 * i)) (ascii ''value'') []) timeout w0))"
      by blast
    with 0 c show ?thesis
      by (auto simp: spec_update_conv_def case_prod_beta)
  next
    case (Suc j')
    with Cons.prems have "j' < length cs" "conversations (cs ! j') = Some cl" by simp_all
    from Cons.IH [OF this Cons.prems(3,4)] Suc show ?thesis
      by (simp add: case_prod_beta)
  qed
qed

section \<open>The runs of the examples\<close>

lemmas run_defs =
  process_conversations_def effective_end_def conv_step_def conv_body_def save_dataset_def
  writable_def writable_object_def encodable_def list_position_def
  pair_loop.simps execute_command_def combine_output_def strip_def isspace_def
  get_default_def set_item_def preview_def str_int_def Let_def
  timeout_marker_prefix_def timeout_marker_suffix_def error_marker_prefix_def
  error_marker_suffix_def

lemmas example_defs =
  example_shell_def example_turn_def example_turns_def example_three_def
  example_three_wrapped_def example_surrogate_def ascii_def

lemma py_range_step: "a < b \<Longrightarrow> py_range a b = a # py_range (a + 1) b"
  by (simp add: py_range_def upto_rec1)

lemma py_range_wrapped: "py_range (- 1) 1 = [- 1, 0]"
  by (simp add: py_range_step py_range_empty)

lemma py_range_ten: "py_range 0 10 = [0, 1, 2, 3, 4, 5, 6, 7, 8, 9]"
  by (simp add: py_range_step py_range_empty)

lemma str_nat_30: "str_nat 30 = [0x33, 0x30]"
  by (simp add: str_nat.simps)

lemma example_run_ranged:
  "process_conversations example_shell 30 1 (Some 2) example_three 0 = Inr example_run"
  by (simp add: run_defs example_defs example_run_def str_nat_30 py_range_def)

lemma example_run_wrapped:
  "map_sum id data (process_conversations example_shell 30 (- 1) (Some 1) example_three 0)
     = Inr example_three_wrapped"
  by (simp add: run_defs example_defs py_range_wrapped)





lemma example_ten_run:
  "conv_loop example_shell 30 (int (length example_ten)) (py_range 0 (int 9 + 1))
     \<lparr>data = example_ten, saved = [], world = 0, console = []\<rparr> = Inr example_ten_checkpoint"
  by (simp add: py_range_ten example_ten_def example_ten_checkpoint_def run_defs example_defs
      example_none_def)

lemma example_ten_surrogate_run:
  "conv_loop example_shell 30 (int (length example_ten_surrogate)) (py_range 0 (int 9 + 1))
     \<lparr>data = example_ten_surrogate, saved = [], world = 0, console = []\<rparr>
     = Inl UnicodeEncodeError"
  by (simp add: py_range_ten example_ten_surrogate_def run_defs example_defs example_none_def)

section \<open>The decimal text of a number\<close>

lemma str_nat_digits: "list_all (\<lambda>c. 48 \<le> c \<and> c \<le> 57) (str_nat n)"
proof (induction n rule: str_nat.induct)
  case (1 n)
  show ?case
  proof (cases "n < 10")
    case True
    then show ?thesis by (subst str_nat.simps) simp
  next
    case False
    have "n mod 10 < 10" by simp
    then have "48 + n mod 10 \<le> 57" by linarith
    with False 1 show ?thesis by (subst str_nat.simps) simp
  qed
qed

lemma str_nat_not_Nil: "str_nat n \<noteq> []"
  by (subst str_nat.simps) simp

lemma str_nat_leading: "hd (str_nat n) = 48 \<Longrightarrow> str_nat n = [48]"
proof (induction n rule: str_nat.induct)
  case (1 n)
  show ?case
  proof (cases "n < 10")
    case True
    with "1.prems" show ?thesis by (subst (asm) str_nat.simps, subst str_nat.simps) simp
  next
    case False
    then have h: "hd (str_nat n) = hd (str_nat (n div 10))"
      by (subst str_nat.simps) (simp add: str_nat_not_Nil)
    with "1.prems" "1.IH" False have "str_nat (n div 10) = [48]" by simp
    then have "digits_value (str_nat (n div 10)) = 0" by (simp add: digits_value_def)
    then have "n div 10 = 0" by (simp add: digits_value_str_nat)
    with False show ?thesis by simp
  qed
qed

section \<open>Further facts about the two loops\<close>



lemma conv_step_saved:
  assumes "conv_step sh timeout e conv_idx st = Inr st'"
  shows "saved st' = (if (conv_idx + 1) mod 10 = 0 then saved st @ [data st'] else saved st)"
proof -
  from conv_step_positions [OF assms] obtain p where
    "list_position (length (data st)) conv_idx = Inr p" by blast
  from conv_step_Inr(3) [OF this assms] show ?thesis .
qed

lemma conv_step_checkpoint:
  "conv_body sh timeout e conv_idx st = Inr s1 \<Longrightarrow> (conv_idx + 1) mod 10 = 0 \<Longrightarrow>
   conv_step sh timeout e conv_idx st =
     (if writable (data s1)
      then Inr (s1\<lparr>console := console s1 @ [AutoSave], saved := saved s1 @ [data s1]\<rparr>)
      else Inl UnicodeEncodeError)"
  by (simp add: conv_step_def save_dataset_def)


lemma process_frame:
  assumes "process_conversations sh timeout start e d w = Inr st"
  shows "length (data st) = length d"
    and "last (saved st) = data st"
    and "writable (data st)"
    and "j < length d \<Longrightarrow> conv_frame (d ! j) (data st ! j)"
    and "\<forall>i\<in>set (py_range start (effective_end (length d) e)). list_position (length d) i \<noteq> Inr j
           \<Longrightarrow> data st ! j = d ! j"
proof -
  let ?st0 = "\<lparr>data = d, saved = [], world = w, console = []\<rparr>"
  from process_Inr [OF assms] obtain s1 where
    l: "conv_loop sh timeout (effective_end (length d) e)
          (py_range start (effective_end (length d) e)) ?st0 = Inr s1"
    and wr: "writable (data s1)" and ds: "data st = data s1"
    and sv: "saved st = saved s1 @ [data s1]"
    by blast
  note f = conv_loop_frame [OF l]
  show "length (data st) = length d" using f ds by simp
  show "last (saved st) = data st" using sv ds by simp
  show "writable (data st)" using wr ds by simp
  show "conv_frame (d ! j) (data st ! j)" if "j < length d"
    using f ds that by simp
  show "data st ! j = d ! j"
    if "\<forall>i\<in>set (py_range start (effective_end (length d) e)). list_position (length d) i \<noteq> Inr j"
    using f ds that by simp
qed

lemma conv_frame_turns:
  assumes "conv_frame c c'"
  shows "other_fields c' = other_fields c"
    and "conversations c = None \<Longrightarrow> conversations c' = None"
    and "conversations c = Some cl \<Longrightarrow>
         \<exists>cl'. conversations c' = Some cl' \<and> length cl' = length cl
           \<and> (\<forall>i<length cl.
                AList.delete (ascii ''value'') (cl' ! i) = AList.delete (ascii ''value'') (cl ! i)
                \<and> (cl' ! i \<noteq> cl ! i \<longrightarrow> odd i \<and> well_paired (cl ! (i - 1)) (cl ! i)))"
proof -
  show "other_fields c' = other_fields c" using assms by (simp add: conv_frame_def)
  show "conversations c = None \<Longrightarrow> conversations c' = None"
    using assms by (simp add: conv_frame_def)
  show "\<exists>cl'. conversations c' = Some cl' \<and> length cl' = length cl
           \<and> (\<forall>i<length cl.
                AList.delete (ascii ''value'') (cl' ! i) = AList.delete (ascii ''value'') (cl ! i)
                \<and> (cl' ! i \<noteq> cl ! i \<longrightarrow> odd i \<and> well_paired (cl ! (i - 1)) (cl ! i)))"
    if c: "conversations c = Some cl"
  proof -
    from assms c obtain cl' where c': "conversations c' = Some cl'"
      and tf: "turns_frame cl cl'"
      by (auto simp: conv_frame_def split: option.splits)
    from turns_frame_length [OF tf] turns_frame_nth [OF tf] c' show ?thesis by blast
  qed
qed

lemma untouched_position:
  assumes "\<not> (start \<le> int j \<and> int j < b)"
    and "\<not> (start \<le> int j - int n \<and> int j - int n < b)"
  shows "\<forall>i\<in>set (py_range start b). list_position n i \<noteq> Inr j"
  using assms by (auto simp: py_range_set list_position_iff)

lemma example_ten_surrogate_process:
  "process_conversations example_shell 30 0 None example_ten_surrogate 0 = Inl UnicodeEncodeError"
  by (simp add: py_range_ten example_ten_surrogate_def run_defs example_defs example_none_def)

lemma checkpoint_state:
  assumes "k < length d" and "(int k + 1) mod 10 = 0"
    and "conv_loop sh timeout (int (length d)) (py_range 0 (int k + 1))
           \<lparr>data = d, saved = [], world = w, console = []\<rparr> = Inr st"
  shows "saved st \<noteq> [] \<and> last (saved st) = data st \<and> writable (data st)
     \<and> data st = fst (spec_update_all sh timeout (take (k + 1) d) w) @ drop (k + 1) d
     \<and> length (data st) = length d
     \<and> (\<forall>j. k < j \<and> j < length d \<longrightarrow> data st ! j = d ! j)
     \<and> (\<forall>j cl i. j \<le> k \<and> conversations (d ! j) = Some cl \<and> 2 * i + 1 < length cl
            \<and> well_paired (cl ! (2 * i)) (cl ! (2 * i + 1)) \<longrightarrow>
          (\<exists>cl' w0. conversations (data st ! j) = Some cl'
             \<and> map_of (cl' ! (2 * i + 1)) (ascii ''value'') =
                 Some (fst (execute_command sh
                              (get_default (cl ! (2 * i)) (ascii ''value'') []) timeout w0))))
     \<and> process_conversations sh timeout 0 None d w =
         (case conv_loop sh timeout (int (length d)) (py_range (int k + 1) (int (length d))) st of
            Inl e \<Rightarrow> Inl e
          | Inr st' \<Rightarrow> save_dataset (st'\<lparr>console := console st' @ [FinalSave]\<rparr>))
     \<and> (\<forall>e conv_idx s s'. conv_step sh timeout e conv_idx s = Inr s' \<longrightarrow>
           saved s' = (if (conv_idx + 1) mod 10 = 0 then saved s @ [data s'] else saved s))
     \<and> (\<forall>e conv_idx s s1. conv_body sh timeout e conv_idx s = Inr s1
            \<and> (conv_idx + 1) mod 10 = 0 \<longrightarrow>
          conv_step sh timeout e conv_idx s =
            (if writable (data s1)
             then Inr (s1\<lparr>console := console s1 @ [AutoSave], saved := saved s1 @ [data s1]\<rparr>)
             else Inl UnicodeEncodeError))"
proof -
  let ?st0 = "\<lparr>data = d, saved = [], world = w, console = []\<rparr>"
  let ?n = "int (length d)"
  let ?u = "fst (spec_update_all sh timeout (take (k + 1) d) w)"
  have r1: "py_range 0 (int k + 1) = map int [0..<k] @ [int k]"
    using py_range_nat [of 0 "Suc k"] by (simp add: add.commute)
  from assms(3) obtain s1 where
    l1: "conv_loop sh timeout ?n (map int [0..<k]) ?st0 = Inr s1"
    and s: "conv_step sh timeout ?n (int k) s1 = Inr st"
    unfolding r1 conv_loop_append by (auto split: sum.splits)
  have len1: "length (data s1) = length d" using conv_loop_frame [OF l1] by simp
  then have pk: "list_position (length (data s1)) (int k) = Inr k"
    using assms(1) by (simp add: list_position_nat)
  note c = conv_step_Inr [OF pk s]
  have sn: "saved st \<noteq> [] \<and> last (saved st) = data st \<and> writable (data st)"
    using c(3) c(4) assms(2) by simp
  have le2: "0 + (k + 1) \<le> length (data ?st0)" using assms(1) by simp
  have r0: "py_range 0 (int k + 1) = map int [0..<0 + (k + 1)]"
    using py_range_nat [of 0 "k + 1"] by (simp add: add.commute)
  from conv_loop_consecutive [OF le2, of sh timeout ?n st] assms(3)
  have dt: "data st = ?u @ drop (k + 1) d"
    unfolding r0 by simp
  have lu: "length ?u = k + 1"
    using assms(1) by (simp add: spec_update_all_length)
  have ln: "length (data st) = length d" using assms(1) lu by (simp add: dt)
  have un: "\<forall>j. k < j \<and> j < length d \<longrightarrow> data st ! j = d ! j"
    using lu by (auto simp: dt nth_append)
  have va: "\<exists>cl' w0. conversations (data st ! j) = Some cl'
             \<and> map_of (cl' ! (2 * i + 1)) (ascii ''value'') =
                 Some (fst (execute_command sh
                              (get_default (cl ! (2 * i)) (ascii ''value'') []) timeout w0))"
    if "j \<le> k" "conversations (d ! j) = Some cl" "2 * i + 1 < length cl"
      "well_paired (cl ! (2 * i)) (cl ! (2 * i + 1))" for j cl i
  proof -
    have jl: "j < length (take (k + 1) d)" using that(1) assms(1) by simp
    have cj: "conversations (take (k + 1) d ! j) = Some cl" using that(1,2) by simp
    from spec_update_all_value [OF jl cj that(3,4), of sh timeout w] obtain cl' w0 where
      a: "conversations (?u ! j) = Some cl'"
      and b: "cl' ! (2 * i + 1) = set_item (cl ! (2 * i + 1)) (ascii ''value'')
           (fst (execute_command sh (get_default (cl ! (2 * i)) (ascii ''value'') []) timeout w0))"
      by blast
    have "data st ! j = ?u ! j" using that(1) lu by (simp add: dt nth_append)
    with a b show ?thesis by (auto simp: map_of_set_item)
  qed
  have "[0..<length d] = [0..<k + 1] @ [k + 1..<length d]"
    using assms(1) by (metis Suc_eq_plus1 Suc_leI le0 upt_add_eq_append le_add_diff_inverse)
  then have r2: "py_range 0 ?n = py_range 0 (int k + 1) @ py_range (int k + 1) ?n"
    using py_range_nat [of 0 "length d"] py_range_nat [of 0 "k + 1"]
      py_range_nat [of "k + 1" "length d"]
    by (simp add: add.commute)
  have pr: "process_conversations sh timeout 0 None d w =
         (case conv_loop sh timeout ?n (py_range (int k + 1) ?n) st of
            Inl e \<Rightarrow> Inl e
          | Inr st' \<Rightarrow> save_dataset (st'\<lparr>console := console st' @ [FinalSave]\<rparr>))"
    by (simp add: process_conversations_def effective_end_def Let_def r2 conv_loop_append assms(3))
  have cd: "\<forall>e conv_idx s s'. conv_step sh timeout e conv_idx s = Inr s' \<longrightarrow>
           saved s' = (if (conv_idx + 1) mod 10 = 0 then saved s @ [data s'] else saved s)"
    using conv_step_saved [of sh timeout] by blast
  have ck: "\<forall>e conv_idx s s1. conv_body sh timeout e conv_idx s = Inr s1
            \<and> (conv_idx + 1) mod 10 = 0 \<longrightarrow>
          conv_step sh timeout e conv_idx s =
            (if writable (data s1)
             then Inr (s1\<lparr>console := console s1 @ [AutoSave], saved := saved s1 @ [data s1]\<rparr>)
             else Inl UnicodeEncodeError)"
    by (auto simp: conv_step_checkpoint)
  have va': "\<forall>j cl i. j \<le> k \<and> conversations (d ! j) = Some cl \<and> 2 * i + 1 < length cl
            \<and> well_paired (cl ! (2 * i)) (cl ! (2 * i + 1)) \<longrightarrow>
          (\<exists>cl' w0. conversations (data st ! j) = Some cl'
             \<and> map_of (cl' ! (2 * i + 1)) (ascii ''value'') =
                 Some (fst (execute_command sh
                              (get_default (cl ! (2 * i)) (ascii ''value'') []) timeout w0)))"
    using va by blast
  from sn [THEN conjunct1] sn [THEN conjunct2, THEN conjunct1]
    sn [THEN conjunct2, THEN conjunct2] dt ln un va' pr cd ck
  show ?thesis by (intro conjI)
qed

section \<open>The claims\<close>

text \<open>
  C1. When the subprocess completes, \<open>execute_command\<close> returns the combination
  of the two streams, the error stream after the output stream and a newline
  when both are non-empty, without the whitespace at its two ends: the result
  is the combination minus a prefix and a suffix of whitespace, and is empty or
  begins and ends with a character that is not whitespace.
\<close>

theorem execute_command_completed:
  assumes "sh command timeout w = (Completed out err rc, w')"
  shows "fst (execute_command sh command timeout w) = strip (spec_combined out err)
    \<and> (\<exists>a b. spec_combined out err = a @ fst (execute_command sh command timeout w) @ b
          \<and> list_all isspace a \<and> list_all isspace b)
    \<and> (fst (execute_command sh command timeout w) \<noteq> [] \<longrightarrow>
          \<not> isspace (hd (fst (execute_command sh command timeout w)))
          \<and> \<not> isspace (last (fst (execute_command sh command timeout w))))"
proof -
  have r: "fst (execute_command sh command timeout w) = strip (spec_combined out err)"
    using assms by (simp add: execute_command_def combine_output_spec)
  show ?thesis
    unfolding r using strip_decomp [of "spec_combined out err"] strip_hd strip_last by blast
qed

theorem execute_command_completed_witness:
  "example_shell (ascii ''ls /nope'') 30 0 = (Completed [] (ascii ''ls: cannot access'' @ [0x0A]) 2, 0)
   \<and> fst (execute_command example_shell (ascii ''ls /nope'') 30 0) = ascii ''ls: cannot access''
   \<and> fst (execute_command example_shell (ascii ''ls /nope'') 30 0) \<noteq> []
   \<and> \<not> isspace (last (fst (execute_command example_shell (ascii ''ls /nope'') 30 0)))"
proof -
  have h: "example_shell (ascii ''ls /nope'') 30 0
      = (Completed [] (ascii ''ls: cannot access'' @ [0x0A]) 2, 0)"
    by (simp add: example_shell_def ascii_def)
  have s: "strip (spec_combined [] (ascii ''ls: cannot access'' @ [0x0A])) = ascii ''ls: cannot access''"
    by (simp add: strip_def spec_combined_def ascii_def isspace_def)
  have n: "ascii ''ls: cannot access'' \<noteq> []" by (simp add: ascii_def)
  from execute_command_completed [of example_shell "ascii ''ls /nope''" 30 0
      "[]" "ascii ''ls: cannot access'' @ [0x0A]" 2 0] h s n
  show ?thesis by auto
qed

text \<open>
  C2. When the subprocess exceeds the timeout \<open>t\<close>, \<open>execute_command\<close> returns
  exactly the timeout marker, written out here code point by code point,
  around the text of \<open>t\<close>. For \<open>t \<ge> 0\<close> that text is the decimal numeral of
  \<open>t\<close>: digits only, no leading zero, of value \<open>t\<close>; for \<open>t < 0\<close> it is a minus
  sign before the numeral of \<open>-t\<close>. The result is a value, and the loop over
  the pairs goes on to the next pair with this text stored in the \<open>gpt\<close> turn.
\<close>

theorem execute_command_timeout:
  assumes "sh command timeout w = (TimeoutExpired, w')"
  shows "execute_command sh command timeout w =
           ([0x5B, 0x547D, 0x4EE4, 0x6267, 0x884C, 0x8D85, 0x65F6, 0x3A, 0x20]
              @ str_int timeout @ [0x79D2, 0x5D], w')
     \<and> (0 \<le> timeout \<longrightarrow>
           digits_value (str_int timeout) = nat timeout
           \<and> list_all (\<lambda>c. 48 \<le> c \<and> c \<le> 57) (str_int timeout)
           \<and> str_int timeout \<noteq> []
           \<and> (hd (str_int timeout) = 48 \<longrightarrow> str_int timeout = [48]))
     \<and> (timeout < 0 \<longrightarrow> str_int timeout = 45 # str_int (- timeout))
     \<and> (\<forall>cl i rn out.
           i + 1 < length cl \<and> well_paired (cl ! i) (cl ! (i + 1))
           \<and> get_default (cl ! i) (ascii ''value'') [] = command \<longrightarrow>
           pair_loop sh timeout i cl rn w out =
             pair_loop sh timeout (i + 2)
               (cl[i + 1 := set_item (cl ! (i + 1)) (ascii ''value'')
                    (timeout_marker_prefix @ str_int timeout @ timeout_marker_suffix)])
               (rn + 1) w'
               (out @ [RoundCommand (rn + 1) command,
                       RoundPreview (rn + 1)
                         (preview (timeout_marker_prefix @ str_int timeout @ timeout_marker_suffix))]))"
proof -
  have e: "execute_command sh command timeout w =
           (timeout_marker_prefix @ str_int timeout @ timeout_marker_suffix, w')"
    using assms by (simp add: execute_command_def)
  then have l: "execute_command sh command timeout w =
           ([0x5B, 0x547D, 0x4EE4, 0x6267, 0x884C, 0x8D85, 0x65F6, 0x3A, 0x20]
              @ str_int timeout @ [0x79D2, 0x5D], w')"
    by (simp add: timeout_marker_prefix_def timeout_marker_suffix_def)
  have d: "0 \<le> timeout \<longrightarrow>
           digits_value (str_int timeout) = nat timeout
           \<and> list_all (\<lambda>c. 48 \<le> c \<and> c \<le> 57) (str_int timeout)
           \<and> str_int timeout \<noteq> []
           \<and> (hd (str_int timeout) = 48 \<longrightarrow> str_int timeout = [48])"
    using str_nat_leading [of "nat timeout"]
    by (simp add: str_int_def digits_value_str_nat str_nat_digits str_nat_not_Nil)
  have n: "timeout < 0 \<longrightarrow> str_int timeout = 45 # str_int (- timeout)"
    by (simp add: str_int_def)
  have p: "\<forall>cl i rn out.
           i + 1 < length cl \<and> well_paired (cl ! i) (cl ! (i + 1))
           \<and> get_default (cl ! i) (ascii ''value'') [] = command \<longrightarrow>
           pair_loop sh timeout i cl rn w out =
             pair_loop sh timeout (i + 2)
               (cl[i + 1 := set_item (cl ! (i + 1)) (ascii ''value'')
                    (timeout_marker_prefix @ str_int timeout @ timeout_marker_suffix)])
               (rn + 1) w'
               (out @ [RoundCommand (rn + 1) command,
                       RoundPreview (rn + 1)
                         (preview (timeout_marker_prefix @ str_int timeout @ timeout_marker_suffix))])"
    using e by (auto simp: pair_loop_valid_step)
  from l d n p show ?thesis by (intro conjI)
qed

theorem execute_command_timeout_witness:
  "example_shell (ascii ''sleep 5'') 30 0 = (TimeoutExpired, 0)
   \<and> execute_command example_shell (ascii ''sleep 5'') 30 0 =
        ([0x5B, 0x547D, 0x4EE4, 0x6267, 0x884C, 0x8D85, 0x65F6, 0x3A, 0x20, 0x33, 0x30,
          0x79D2, 0x5D], 0)
   \<and> example_shell (ascii ''sleep 5'') 1 0 = (TimeoutExpired, 0)
   \<and> execute_command example_shell (ascii ''sleep 5'') 1 0 =
        ([0x5B, 0x547D, 0x4EE4, 0x6267, 0x884C, 0x8D85, 0x65F6, 0x3A, 0x20, 0x31, 0x79D2, 0x5D], 0)"
proof -
  have h30: "example_shell (ascii ''sleep 5'') 30 0 = (TimeoutExpired, 0)"
    by (simp add: example_shell_def ascii_def)
  have h1: "example_shell (ascii ''sleep 5'') 1 0 = (TimeoutExpired, 0)"
    by (simp add: example_shell_def ascii_def)
  have s30: "str_int 30 = [0x33, 0x30]" by (simp add: str_int_def str_nat.simps)
  have s1: "str_int 1 = [0x31]" by (simp add: str_int_def str_nat.simps)
  note a = execute_command_timeout [of example_shell "ascii ''sleep 5''" 30 0 0, OF h30,
      THEN conjunct1]
  note b = execute_command_timeout [of example_shell "ascii ''sleep 5''" 1 0 0, OF h1,
      THEN conjunct1]
  from a s30 have a': "execute_command example_shell (ascii ''sleep 5'') 30 0 =
        ([0x5B, 0x547D, 0x4EE4, 0x6267, 0x884C, 0x8D85, 0x65F6, 0x3A, 0x20, 0x33, 0x30,
          0x79D2, 0x5D], 0)" by simp
  from b s1 have b': "execute_command example_shell (ascii ''sleep 5'') 1 0 =
        ([0x5B, 0x547D, 0x4EE4, 0x6267, 0x884C, 0x8D85, 0x65F6, 0x3A, 0x20, 0x31, 0x79D2, 0x5D], 0)"
    by simp
  from h30 a' h1 b' show ?thesis by (intro conjI)
qed

text \<open>
  C3. A pair at the positions \<open>(2k, 2k+1)\<close> whose \<open>from\<close> fields are not
  \<open>("human", "gpt")\<close> is skipped: its two turns are the same after the loop, the
  warning with the index \<open>2k\<close> is printed, and the loop goes on at \<open>2k + 2\<close>
  with the list, the round counter and the host state as they were.
\<close>

theorem malformed_pair_skipped:
  assumes "2 * k + 1 < length cl"
    and "\<not> well_paired (cl ! (2 * k)) (cl ! (2 * k + 1))"
    and "pair_loop sh timeout 0 cl rn w out = (cl', rn', w', out')"
  shows "cl' ! (2 * k + 1) = cl ! (2 * k + 1)
     \<and> cl' ! (2 * k) = cl ! (2 * k)
     \<and> FormatWarning (2 * k) \<in> set out'
     \<and> (\<forall>cur rn1 w1 out1.
           length cur = length cl \<and> cur ! (2 * k) = cl ! (2 * k)
           \<and> cur ! (2 * k + 1) = cl ! (2 * k + 1) \<longrightarrow>
           pair_loop sh timeout (2 * k) cur rn1 w1 out1 =
             pair_loop sh timeout (2 * k + 2) cur rn1 w1 (out1 @ [FormatWarning (2 * k)]))"
proof -
  from assms(3) have wk: "spec_walk_pairs sh timeout 0 cl rn w out = (cl', rn', w', out')"
    by (simp add: pair_loop_is_walk)
  then have st: "spec_turns sh timeout cl w = (cl', w')" by (rule walk_turns)
  have f: "turns_frame cl cl'" using spec_turns_frame [of cl sh timeout w] st by simp
  have a: "cl' ! (2 * k + 1) = cl ! (2 * k + 1)"
    using spec_turns_skip [OF assms(1,2), of sh timeout w] st by simp
  have b: "cl' ! (2 * k) = cl ! (2 * k)"
    using turns_frame_even [OF f, of k] assms(1) by simp
  have c: "FormatWarning (2 * k) \<in> set out'"
    using walk_warning [OF wk assms(1,2)] by simp
  have d: "pair_loop sh timeout (2 * k) cur rn1 w1 out1 =
             pair_loop sh timeout (2 * k + 2) cur rn1 w1 (out1 @ [FormatWarning (2 * k)])"
    if "length cur = length cl" "cur ! (2 * k) = cl ! (2 * k)"
       "cur ! (2 * k + 1) = cl ! (2 * k + 1)" for cur rn1 w1 out1
    using that assms(1,2) pair_loop_skip_step [of "2 * k" cur sh timeout rn1 w1 out1] by simp
  from a b c d show ?thesis by blast
qed

theorem malformed_pair_skipped_witness:
  "2 * 1 + 1 < length example_turns
   \<and> \<not> well_paired (example_turns ! (2 * 1)) (example_turns ! (2 * 1 + 1))
   \<and> fst (pair_loop example_shell 30 0 example_turns 0 0 []) ! 3 = example_turn ''human'' ''echo hi''
   \<and> fst (pair_loop example_shell 30 0 example_turns 0 0 []) ! 2 = example_turn ''gpt'' ''x''
   \<and> FormatWarning 2 \<in> set (snd (snd (snd (pair_loop example_shell 30 0 example_turns 0 0 []))))
   \<and> fst (pair_loop example_shell 30 0 example_turns 0 0 []) ! 4 = example_turn ''gpt'' ''y''"
proof -
  have r: "fst (pair_loop example_shell 30 0 example_turns 0 0 []) ! 4 = example_turn ''gpt'' ''y''"
    by (simp add: run_defs example_defs)
  have h1: "2 * 1 + 1 < length example_turns" by (simp add: example_turns_def)
  have h2: "\<not> well_paired (example_turns ! (2 * 1)) (example_turns ! (2 * 1 + 1))"
    by (simp add: example_turns_def well_paired_def example_turn_def ascii_def)
  have e: "example_turns ! 3 = example_turn ''human'' ''echo hi''"
    "example_turns ! 2 = example_turn ''gpt'' ''x''"
    by (simp_all add: example_turns_def)
  obtain cl' rn' w' out' where
    p: "pair_loop example_shell 30 0 example_turns 0 0 [] = (cl', rn', w', out')"
    by (metis prod_cases4)
  from malformed_pair_skipped [OF h1 h2 p] h1 h2 e p r show ?thesis by simp
qed

text \<open>
  C4, amended. In a run with the default range, the loop up to conversation
  \<open>k\<close> with \<open>(k + 1) mod 10 = 0\<close> either raises \<open>UnicodeEncodeError\<close> in a save, or
  completes conversation \<open>k\<close> and its save, and then the output file has just
  been written with the dataset in memory: the conversations after \<open>k\<close> are as
  they were read, and in every conversation up to \<open>k\<close> the field \<open>value\<close> of the
  second turn of every well-formed pair is the result of \<open>execute_command\<close> on
  the \<open>value\<close> of the first; the run goes on from that state. A step of the
  loop saves exactly when \<open>(conv_idx + 1) mod 10 = 0\<close>, whatever the start of the
  range, and that save raises exactly when the dataset in memory cannot be
  encoded.
\<close>

theorem checkpoint_after_ten:
  assumes "k < length d" and "(int k + 1) mod 10 = 0"
  shows "(conv_loop sh timeout (int (length d)) (py_range 0 (int k + 1))
            \<lparr>data = d, saved = [], world = w, console = []\<rparr> = Inl UnicodeEncodeError
          \<or> (\<exists>st. conv_loop sh timeout (int (length d)) (py_range 0 (int k + 1))
                     \<lparr>data = d, saved = [], world = w, console = []\<rparr> = Inr st
               \<and> saved st \<noteq> [] \<and> last (saved st) = data st \<and> writable (data st)
               \<and> data st = fst (spec_update_all sh timeout (take (k + 1) d) w) @ drop (k + 1) d
               \<and> length (data st) = length d
               \<and> (\<forall>j. k < j \<and> j < length d \<longrightarrow> data st ! j = d ! j)
               \<and> (\<forall>j cl i. j \<le> k \<and> conversations (d ! j) = Some cl \<and> 2 * i + 1 < length cl
                      \<and> well_paired (cl ! (2 * i)) (cl ! (2 * i + 1)) \<longrightarrow>
                    (\<exists>cl' w0. conversations (data st ! j) = Some cl'
                       \<and> map_of (cl' ! (2 * i + 1)) (ascii ''value'') =
                           Some (fst (execute_command sh
                                        (get_default (cl ! (2 * i)) (ascii ''value'') [])
                                        timeout w0))))
               \<and> process_conversations sh timeout 0 None d w =
                   (case conv_loop sh timeout (int (length d))
                           (py_range (int k + 1) (int (length d))) st of
                      Inl e \<Rightarrow> Inl e
                    | Inr st' \<Rightarrow> save_dataset (st'\<lparr>console := console st' @ [FinalSave]\<rparr>))))
     \<and> (\<forall>e conv_idx s s'. conv_step sh timeout e conv_idx s = Inr s' \<longrightarrow>
           saved s' = (if (conv_idx + 1) mod 10 = 0 then saved s @ [data s'] else saved s))
     \<and> (\<forall>e conv_idx s s1. conv_body sh timeout e conv_idx s = Inr s1
            \<and> (conv_idx + 1) mod 10 = 0 \<longrightarrow>
          conv_step sh timeout e conv_idx s =
            (if writable (data s1)
             then Inr (s1\<lparr>console := console s1 @ [AutoSave], saved := saved s1 @ [data s1]\<rparr>)
             else Inl UnicodeEncodeError))"
proof -
  let ?st0 = "\<lparr>data = d, saved = [], world = w, console = []\<rparr>"
  let ?l = "conv_loop sh timeout (int (length d)) (py_range 0 (int k + 1)) ?st0"
  have v: "\<forall>i\<in>set (py_range 0 (int k + 1)). \<exists>p. list_position (length (data ?st0)) i = Inr p"
    using assms(1) by (auto simp: py_range_set list_position_def Let_def)
  have ni: "?l \<noteq> Inl IndexError"
    using conv_loop_no_index_error [OF v] .
  have cd: "\<forall>e conv_idx s s'. conv_step sh timeout e conv_idx s = Inr s' \<longrightarrow>
           saved s' = (if (conv_idx + 1) mod 10 = 0 then saved s @ [data s'] else saved s)"
    using conv_step_saved [of sh timeout] by blast
  have ck: "\<forall>e conv_idx s s1. conv_body sh timeout e conv_idx s = Inr s1
            \<and> (conv_idx + 1) mod 10 = 0 \<longrightarrow>
          conv_step sh timeout e conv_idx s =
            (if writable (data s1)
             then Inr (s1\<lparr>console := console s1 @ [AutoSave], saved := saved s1 @ [data s1]\<rparr>)
             else Inl UnicodeEncodeError)"
    by (auto simp: conv_step_checkpoint)
  show ?thesis
  proof (cases ?l)
    case (Inl err)
    with ni have "?l = Inl UnicodeEncodeError" by (cases err) simp_all
    with cd ck show ?thesis by (intro conjI disjI1)
  next
    case (Inr st)
    note f = checkpoint_state [OF assms Inr]
    note p = f [THEN conjunct1] f [THEN conjunct2, THEN conjunct1]
      f [THEN conjunct2, THEN conjunct2, THEN conjunct1]
      f [THEN conjunct2, THEN conjunct2, THEN conjunct2, THEN conjunct1]
      f [THEN conjunct2, THEN conjunct2, THEN conjunct2, THEN conjunct2, THEN conjunct1]
      f [THEN conjunct2, THEN conjunct2, THEN conjunct2, THEN conjunct2, THEN conjunct2,
        THEN conjunct1]
      f [THEN conjunct2, THEN conjunct2, THEN conjunct2, THEN conjunct2, THEN conjunct2,
        THEN conjunct2, THEN conjunct1]
      f [THEN conjunct2, THEN conjunct2, THEN conjunct2, THEN conjunct2, THEN conjunct2,
        THEN conjunct2, THEN conjunct2, THEN conjunct1]
    from Inr p cd ck show ?thesis by (intro conjI disjI2 exI [of _ st])
  qed
qed

theorem checkpoint_after_ten_witness:
  "9 < length example_ten \<and> (int 9 + 1) mod 10 = 0
   \<and> conv_loop example_shell 30 (int (length example_ten)) (py_range 0 (int 9 + 1))
        \<lparr>data = example_ten, saved = [], world = 0, console = []\<rparr> = Inr example_ten_checkpoint
   \<and> last (saved example_ten_checkpoint) = data example_ten_checkpoint
   \<and> writable (data example_ten_checkpoint)
   \<and> data example_ten_checkpoint ! 10 = example_ten ! 10
   \<and> conversations (data example_ten_checkpoint ! 9) =
        Some [example_turn ''human'' ''echo hi'', example_turn ''gpt'' ''hi'']
   \<and> map_of (example_turn ''gpt'' ''hi'') (ascii ''value'') = Some (ascii ''hi'')"
proof -
  have h1: "9 < length example_ten" by (simp add: example_ten_def)
  have h2: "(int 9 + 1) mod 10 = 0" by simp
  note f = checkpoint_after_ten [OF h1 h2, of example_shell 30 0, THEN conjunct1]
  from f example_ten_run obtain st where
    s: "Inr example_ten_checkpoint = (Inr st :: error + nat run_state)"
    and a: "last (saved st) = data st" and b: "writable (data st)"
    and c: "\<forall>j. 9 < j \<and> j < length example_ten \<longrightarrow> data st ! j = example_ten ! j"
    by auto
  from s have e: "st = example_ten_checkpoint" by simp
  have l: "9 < (10::nat) \<and> 10 < length example_ten" by (simp add: example_ten_def)
  note a' = a [unfolded e] and b' = b [unfolded e]
  note c' = c [unfolded e, rule_format, OF l]
  have v: "conversations (data example_ten_checkpoint ! 9) =
        Some [example_turn ''human'' ''echo hi'', example_turn ''gpt'' ''hi'']"
    by (simp add: example_ten_checkpoint_def)
  have m: "map_of (example_turn ''gpt'' ''hi'') (ascii ''value'') = Some (ascii ''hi'')"
    by (simp add: example_turn_def ascii_def)
  from h1 h2 example_ten_run a' b' c' v m show ?thesis by (intro conjI)
qed

text \<open>
  C4 as stated fails when the dataset holds a lone surrogate, which
  \<open>json.load\<close> accepts from an escape and \<open>json.dump\<close> cannot write in UTF-8: the
  save after conversation 9 raises, and so does the run.
\<close>

theorem checkpoint_encode_error_counterexample:
  "9 < length example_ten_surrogate \<and> (int 9 + 1) mod 10 = 0
   \<and> conv_loop example_shell 30 (int (length example_ten_surrogate)) (py_range 0 (int 9 + 1))
        \<lparr>data = example_ten_surrogate, saved = [], world = 0, console = []\<rparr>
        = Inl UnicodeEncodeError
   \<and> process_conversations example_shell 30 0 None example_ten_surrogate 0
        = Inl UnicodeEncodeError"
proof (intro conjI)
  show "9 < length example_ten_surrogate"
    by (simp add: example_ten_surrogate_def example_surrogate_def)
  show "(int 9 + 1) mod 10 = 0" by simp
  show "conv_loop example_shell 30 (int (length example_ten_surrogate)) (py_range 0 (int 9 + 1))
        \<lparr>data = example_ten_surrogate, saved = [], world = 0, console = []\<rparr>
        = Inl UnicodeEncodeError"
    by (rule example_ten_surrogate_run)
  show "process_conversations example_shell 30 0 None example_ten_surrogate 0
        = Inl UnicodeEncodeError"
    by (rule example_ten_surrogate_process)
qed

text \<open>
  C5, amended. Whatever the start and the end, a run that reaches its final
  save changes nothing but the turns at odd positions whose pair is well
  formed, and of such a turn nothing but the field \<open>value\<close>: the other fields
  of every conversation, the presence and length of every list of turns, and
  every field other than \<open>value\<close> of every turn are in the final output as they
  were read. A conversation at position \<open>j\<close> is as it was read unless an index
  of \<open>range(start, end)\<close> denotes it, as \<open>j\<close> or, counted from the end of the
  dataset, as \<open>j - len(data)\<close>; for a start that is not negative this is the
  range \<open>[start, end)\<close> itself.
\<close>

theorem frame_of_run:
  assumes "process_conversations sh timeout start_index end_index d w = Inr st"
  shows "length (data st) = length d \<and> last (saved st) = data st
     \<and> (\<forall>j<length d.
          other_fields (data st ! j) = other_fields (d ! j)
          \<and> (conversations (d ! j) = None \<longrightarrow> conversations (data st ! j) = None)
          \<and> (\<forall>cl. conversations (d ! j) = Some cl \<longrightarrow>
                (\<exists>cl'. conversations (data st ! j) = Some cl' \<and> length cl' = length cl
                   \<and> (\<forall>i<length cl.
                        AList.delete (ascii ''value'') (cl' ! i)
                          = AList.delete (ascii ''value'') (cl ! i)
                        \<and> (cl' ! i \<noteq> cl ! i \<longrightarrow>
                             odd i \<and> well_paired (cl ! (i - 1)) (cl ! i)))))
          \<and> (\<not> (start_index \<le> int j \<and> int j < effective_end (length d) end_index)
               \<and> \<not> (start_index \<le> int j - int (length d)
                      \<and> int j - int (length d) < effective_end (length d) end_index) \<longrightarrow>
                data st ! j = d ! j)
          \<and> (0 \<le> start_index
               \<and> \<not> (start_index \<le> int j \<and> int j < effective_end (length d) end_index) \<longrightarrow>
                data st ! j = d ! j))"
proof -
  note n = process_frame [OF assms]
  have "other_fields (data st ! j) = other_fields (d ! j)
          \<and> (conversations (d ! j) = None \<longrightarrow> conversations (data st ! j) = None)
          \<and> (\<forall>cl. conversations (d ! j) = Some cl \<longrightarrow>
                (\<exists>cl'. conversations (data st ! j) = Some cl' \<and> length cl' = length cl
                   \<and> (\<forall>i<length cl.
                        AList.delete (ascii ''value'') (cl' ! i)
                          = AList.delete (ascii ''value'') (cl ! i)
                        \<and> (cl' ! i \<noteq> cl ! i \<longrightarrow>
                             odd i \<and> well_paired (cl ! (i - 1)) (cl ! i)))))
          \<and> (\<not> (start_index \<le> int j \<and> int j < effective_end (length d) end_index)
               \<and> \<not> (start_index \<le> int j - int (length d)
                      \<and> int j - int (length d) < effective_end (length d) end_index) \<longrightarrow>
                data st ! j = d ! j)
          \<and> (0 \<le> start_index
               \<and> \<not> (start_index \<le> int j \<and> int j < effective_end (length d) end_index) \<longrightarrow>
                data st ! j = d ! j)"
    if j: "j < length d" for j
  proof -
    note t = conv_frame_turns [OF n(4) [OF j]]
    have u: "data st ! j = d ! j"
      if "\<not> (start_index \<le> int j \<and> int j < effective_end (length d) end_index)"
        "\<not> (start_index \<le> int j - int (length d)
            \<and> int j - int (length d) < effective_end (length d) end_index)"
      using n(5) [OF untouched_position [OF that]] .
    have v: "data st ! j = d ! j"
      if "0 \<le> start_index"
        "\<not> (start_index \<le> int j \<and> int j < effective_end (length d) end_index)"
    proof -
      from j that(1) have "\<not> (start_index \<le> int j - int (length d)
            \<and> int j - int (length d) < effective_end (length d) end_index)" by simp
      from u [OF that(2) this] show ?thesis .
    qed
    from t(1) t(2) t(3) u v show ?thesis by (intro conjI allI impI) auto
  qed
  then have "\<forall>j<length d.
          other_fields (data st ! j) = other_fields (d ! j)
          \<and> (conversations (d ! j) = None \<longrightarrow> conversations (data st ! j) = None)
          \<and> (\<forall>cl. conversations (d ! j) = Some cl \<longrightarrow>
                (\<exists>cl'. conversations (data st ! j) = Some cl' \<and> length cl' = length cl
                   \<and> (\<forall>i<length cl.
                        AList.delete (ascii ''value'') (cl' ! i)
                          = AList.delete (ascii ''value'') (cl ! i)
                        \<and> (cl' ! i \<noteq> cl ! i \<longrightarrow>
                             odd i \<and> well_paired (cl ! (i - 1)) (cl ! i)))))
          \<and> (\<not> (start_index \<le> int j \<and> int j < effective_end (length d) end_index)
               \<and> \<not> (start_index \<le> int j - int (length d)
                      \<and> int j - int (length d) < effective_end (length d) end_index) \<longrightarrow>
                data st ! j = d ! j)
          \<and> (0 \<le> start_index
               \<and> \<not> (start_index \<le> int j \<and> int j < effective_end (length d) end_index) \<longrightarrow>
                data st ! j = d ! j)"
    by simp
  with n(1) n(2) show ?thesis by (intro conjI)
qed

theorem frame_of_run_witness:
  "process_conversations example_shell 30 1 (Some 2) example_three 0 = Inr example_run
   \<and> length (data example_run) = length example_three
   \<and> last (saved example_run) = data example_run
   \<and> data example_run ! 0 = example_three ! 0
   \<and> data example_run ! 2 = example_three ! 2
   \<and> other_fields (data example_run ! 1) = other_fields (example_three ! 1)"
proof -
  note f = frame_of_run [OF example_run_ranged]
  note g = f [THEN conjunct2, THEN conjunct2, rule_format]
  have l: "0 < length example_three" "1 < length example_three" "2 < length example_three"
    by (simp_all add: example_three_def)
  have o: "0 \<le> (1::int)
      \<and> \<not> (1 \<le> int 0 \<and> int 0 < effective_end (length example_three) (Some 2))"
    "0 \<le> (1::int)
      \<and> \<not> (1 \<le> int 2 \<and> int 2 < effective_end (length example_three) (Some 2))"
    by (simp_all add: effective_end_def)
  note a = g [OF l(1), THEN conjunct2, THEN conjunct2, THEN conjunct2, THEN conjunct2,
      rule_format, OF o(1)]
  note b = g [OF l(3), THEN conjunct2, THEN conjunct2, THEN conjunct2, THEN conjunct2,
      rule_format, OF o(2)]
  note c = g [OF l(2), THEN conjunct1]
  from example_run_ranged f [THEN conjunct1] f [THEN conjunct2, THEN conjunct1] a b c
  show ?thesis by (intro conjI)
qed

text \<open>
  C5 as stated fails for a negative start when the range is read as positions
  from the front: \<open>range(-1, 1)\<close> visits the indices \<open>-1\<close> and \<open>0\<close>, and
  \<open>data[-1]\<close> is the last conversation, at position 2, which is not in
  \<open>[-1, 1)\<close> and is changed all the same.
\<close>

theorem frame_negative_start_counterexample:
  "map_sum id data (process_conversations example_shell 30 (- 1) (Some 1) example_three 0)
     = Inr example_three_wrapped
   \<and> \<not> (- 1 \<le> int 2 \<and> int 2 < effective_end (length example_three) (Some 1))
   \<and> example_three_wrapped ! 2 \<noteq> example_three ! 2"
proof (intro conjI)
  show "map_sum id data (process_conversations example_shell 30 (- 1) (Some 1) example_three 0)
     = Inr example_three_wrapped"
    by (rule example_run_wrapped)
  show "\<not> (- 1 \<le> int 2 \<and> int 2 < effective_end (length example_three) (Some 1))"
    by (simp add: effective_end_def example_three_def)
  show "example_three_wrapped ! 2 \<noteq> example_three ! 2"
    by (simp add: example_defs)
qed

text \<open>
  C6. An exception raised by the subprocess call, other than the timeout, gives
  the error marker, written out here code point by code point, around
  \<open>str(e)\<close>, as a value, and the loop over the pairs goes on. A process that
  completes gives the trimmed combination of its streams whatever its exit
  status.
\<close>

theorem execute_command_failure:
  "(sh command timeout w = (Raised msg, w') \<longrightarrow>
      execute_command sh command timeout w =
        ([0x5B, 0x547D, 0x4EE4, 0x6267, 0x884C, 0x9519, 0x8BEF, 0x3A, 0x20] @ msg @ [0x5D], w')
      \<and> (\<forall>cl i rn out.
            i + 1 < length cl \<and> well_paired (cl ! i) (cl ! (i + 1))
            \<and> get_default (cl ! i) (ascii ''value'') [] = command \<longrightarrow>
            pair_loop sh timeout i cl rn w out =
              pair_loop sh timeout (i + 2)
                (cl[i + 1 := set_item (cl ! (i + 1)) (ascii ''value'')
                     (error_marker_prefix @ msg @ error_marker_suffix)])
                (rn + 1) w'
                (out @ [RoundCommand (rn + 1) command,
                        RoundPreview (rn + 1)
                          (preview (error_marker_prefix @ msg @ error_marker_suffix))])))
   \<and> (sh command timeout w = (Completed out err rc, w') \<longrightarrow>
        execute_command sh command timeout w = (strip (spec_combined out err), w'))"
proof -
  have r: "execute_command sh command timeout w = (error_marker_prefix @ msg @ error_marker_suffix, w')"
    if "sh command timeout w = (Raised msg, w')"
    using that by (simp add: execute_command_def)
  have l: "execute_command sh command timeout w =
        ([0x5B, 0x547D, 0x4EE4, 0x6267, 0x884C, 0x9519, 0x8BEF, 0x3A, 0x20] @ msg @ [0x5D], w')"
    if "sh command timeout w = (Raised msg, w')"
    using r [OF that] by (simp add: error_marker_prefix_def error_marker_suffix_def)
  have c: "execute_command sh command timeout w = (strip (spec_combined out err), w')"
    if "sh command timeout w = (Completed out err rc, w')"
    using that by (simp add: execute_command_def combine_output_spec)
  have p: "\<forall>cl i rn out.
            i + 1 < length cl \<and> well_paired (cl ! i) (cl ! (i + 1))
            \<and> get_default (cl ! i) (ascii ''value'') [] = command \<longrightarrow>
            pair_loop sh timeout i cl rn w out =
              pair_loop sh timeout (i + 2)
                (cl[i + 1 := set_item (cl ! (i + 1)) (ascii ''value'')
                     (error_marker_prefix @ msg @ error_marker_suffix)])
                (rn + 1) w'
                (out @ [RoundCommand (rn + 1) command,
                        RoundPreview (rn + 1)
                          (preview (error_marker_prefix @ msg @ error_marker_suffix))])"
    if "sh command timeout w = (Raised msg, w')"
    using r [OF that] by (auto simp: pair_loop_valid_step)
  from l p c show ?thesis by blast
qed

theorem execute_command_failure_witness:
  "example_shell [0] 30 0 = (Raised (ascii ''embedded null byte''), 0)
   \<and> execute_command example_shell [0] 30 0 =
        ([0x5B, 0x547D, 0x4EE4, 0x6267, 0x884C, 0x9519, 0x8BEF, 0x3A, 0x20]
           @ ascii ''embedded null byte'' @ [0x5D], 0)
   \<and> example_shell (ascii ''ls /nope'') 30 0 =
        (Completed [] (ascii ''ls: cannot access'' @ [0x0A]) 2, 0)
   \<and> execute_command example_shell (ascii ''ls /nope'') 30 0 = (ascii ''ls: cannot access'', 0)"
proof -
  have h1: "example_shell [0] 30 0 = (Raised (ascii ''embedded null byte''), 0)"
    by (simp add: example_shell_def ascii_def)
  have h2: "example_shell (ascii ''ls /nope'') 30 0
      = (Completed [] (ascii ''ls: cannot access'' @ [0x0A]) 2, 0)"
    by (simp add: example_shell_def ascii_def)
  have s: "strip (spec_combined [] (ascii ''ls: cannot access'' @ [0x0A])) = ascii ''ls: cannot access''"
    by (simp add: strip_def spec_combined_def ascii_def isspace_def)
  note a = execute_command_failure [of example_shell "[0]" 30 0 "ascii ''embedded null byte''" 0,
      THEN conjunct1, rule_format, OF h1, THEN conjunct1]
  note b = execute_command_failure [of example_shell "ascii ''ls /nope''" 30 0 _ 0
      "[]" "ascii ''ls: cannot access'' @ [0x0A]" 2, THEN conjunct2, rule_format, OF h2]
  from b s have b': "execute_command example_shell (ascii ''ls /nope'') 30 0
      = (ascii ''ls: cannot access'', 0)" by simp
  from h1 a h2 b' show ?thesis by (intro conjI)
qed






text \<open>
  C9. On a host where the result of a command depends on the command and the
  timeout alone and no command changes the host, two runs on the same dataset
  with the same range write the same contents to the output file and end with
  the same dataset in memory, whatever the state of the host at their start;
  a run leaves the host as it found it.
\<close>

theorem idempotent_run:
  assumes "\<forall>c t w. sh c t w = (f c t, w)"
  shows "map_sum id data (process_conversations sh timeout start e d w1) =
           map_sum id data (process_conversations sh timeout start e d w2)
     \<and> map_sum id saved (process_conversations sh timeout start e d w1) =
           map_sum id saved (process_conversations sh timeout start e d w2)
     \<and> (\<forall>st. process_conversations sh timeout start e d w1 = Inr st \<longrightarrow> world st = w1)"
proof -
  note p = process_pure [OF assms, of timeout start e d]
  show ?thesis
    by (cases "process_conversations sh timeout start e d w2")
       (auto simp add: p [of w1 w2] sum.map_comp comp_def)
qed

theorem idempotent_run_witness:
  "(\<forall>c t w. example_shell c t w = (fst (example_shell c t 0), w))
   \<and> map_sum id data (process_conversations example_shell 30 0 None example_three 0) =
       map_sum id data (process_conversations example_shell 30 0 None example_three 5)
   \<and> map_sum id saved (process_conversations example_shell 30 0 None example_three 0) =
       map_sum id saved (process_conversations example_shell 30 0 None example_three 5)"
proof -
  have h: "\<forall>c t w. example_shell c t w = (fst (example_shell c t 0), w)"
    by (simp add: example_shell_def)
  note f = idempotent_run [OF h, of 30 0 None example_three 0 5]
  from h f [THEN conjunct1] f [THEN conjunct2, THEN conjunct1] show ?thesis by (intro conjI)
qed




end
